theory Spec2Isabelle
  imports Main "HOL-Library.Multiset"
begin

section \<open>Errors and the sequencing of fallible steps\<close>

text \<open>
  The Python exceptions that the modelled code can raise. \<open>RuntimeError n\<close> is the
  error \<^verbatim>\<open>call_llm\<close> raises after \<open>n\<close> retries ("Failed after n retries: invalid JSON");
  \<open>Reraised e\<close> is any other exception \<open>e\<close> of the backend, which \<^verbatim>\<open>call_llm\<close>
  raises again at once. \<open>NoReturn\<close> is no exception: it stands for a phase call that never
  returns, so that a run in which a phase loops for ever is shown as stopped at its node.
\<close>

datatype error =
    KeyError string
  | AttributeError string
  | TypeError string
  | ValueError string
  | RuntimeError int
  | Reraised string
  | NoReturn

definition and_then :: "error + 'a \<Rightarrow> ('a \<Rightarrow> error + 'b) \<Rightarrow> error + 'b" where
  "and_then r f = (case r of Inl e \<Rightarrow> Inl e | Inr v \<Rightarrow> f v)"

text \<open>\<^verbatim>\<open>s["key"]\<close> on a dictionary: a missing key raises \<^verbatim>\<open>KeyError\<close>.\<close>

definition getitem :: "'a option \<Rightarrow> string \<Rightarrow> error + 'a" where
  "getitem field key = (case field of None \<Rightarrow> Inl (KeyError key) | Some v \<Rightarrow> Inr v)"

section \<open>The structured answers of the phases\<close>

text \<open>
  The pydantic classes of \<^verbatim>\<open>medical_reasoning_phases/*.py\<close>. The answers are JSON
  dictionaries; a dictionary \<^verbatim>\<open>{"hypotheses": [...]}\<close> is modelled by the list it holds.
  Keys that several classes share (\<^verbatim>\<open>diagnosis\<close>, \<^verbatim>\<open>explanation\<close>, \<^verbatim>\<open>description\<close>)
  carry the initial of their class. A decoded answer is taken to have the shape of its
  class, its keys with values of their types; what a class asks beyond the shape (the
  length of a list, the values of an enumeration or of a literal) is not assumed of an
  answer: it is the schema predicate of the next section.
\<close>

record Finding =
  finding :: string
  f_explanation :: string

record AbstractionFeature =
  category :: string
  findings :: "Finding list"

type_synonym AbstractionFeaturesList = "AbstractionFeature list"

text \<open>One item of the flattened list \<^verbatim>\<open>abstraction_postprocessing\<close> returns.\<close>

record abstraction_item =
  a_category :: string
  a_finding :: string
  a_explanation :: string

record DiagnosticHypothesis =
  diagnosis :: string
  explanation :: string
  supporting_features :: "string list"

type_synonym AbductionHypothesesList = "DiagnosticHypothesis list"

record Rank =
  rank :: int
  parsimony :: string
  danger :: string
  cost :: string
  curability :: string

record RankedDiagnosticHypothesis =
  r_diagnosis :: string
  position :: Rank

type_synonym RankedHypothesesList = "RankedDiagnosticHypothesis list"

record ExpectedFinding =
  description :: string
  kind :: string
  priority :: string

record HypothesisDeduction =
  d_diagnosis :: string
  predicted_consequences :: "ExpectedFinding list"

type_synonym DeductionPlan = "HypothesisDeduction list"

record EvaluatedExpectedFinding =
  e_description :: string
  status :: string
  comment :: string

record EvaluatedHypothesis =
  e_diagnosis :: string
  evaluation :: string
  e_explanation :: string
  termination_recommendation :: string
  evaluated_findings :: "EvaluatedExpectedFinding list"

type_synonym InductionResult = "EvaluatedHypothesis list"

text \<open>
  \<^verbatim>\<open>query_rank_hypotheses\<close> receives hypothesis dictionaries of either shape and tells
  them apart by their keys (\<^verbatim>\<open>"evaluation" in h\<close>).
\<close>

datatype hypothesis_dict =
    AbductionDict DiagnosticHypothesis
  | InductionDict EvaluatedHypothesis

fun dict_diagnosis :: "hypothesis_dict \<Rightarrow> string" where
  "dict_diagnosis (AbductionDict h) = diagnosis h"
| "dict_diagnosis (InductionDict h) = e_diagnosis h"

fun has_induction_keys :: "hypothesis_dict \<Rightarrow> bool" where
  "has_induction_keys (AbductionDict h) = False"
| "has_induction_keys (InductionDict h) = True"

section \<open>The response schemas\<close>

text \<open>
  A pydantic response class is modelled by the predicate "this answer validates against
  the class". \<^verbatim>\<open>ranked_diagnoses\<close>, \<^verbatim>\<open>deduct_diagnoses\<close> and \<^verbatim>\<open>induct_diagnoses\<close> build
  their class per call: \<^verbatim>\<open>DiagnosisEnum\<close> has the given diagnoses as its values, and the
  list of hypotheses is annotated \<^verbatim>\<open>Field(min_length=10, max_length=10)\<close>.
\<close>

definition FindingCategory :: "string list" where
  "FindingCategory =
    [''History of Present Illness'', ''Past Medical History'', ''Current Medications'',
     ''Allergies'', ''Family History'', ''Physical Examination'', ''Investigations'',
     ''Economic Stability'', ''Education Access & Quality'', ''Healthcare Access & Quality'',
     ''Neighborhood & Built Environment'', ''Social & Community Context'']"

definition AbstractionFeaturesList_schema :: "AbstractionFeaturesList \<Rightarrow> bool" where
  "AbstractionFeaturesList_schema answer = list_all (\<lambda>f. category f \<in> set FindingCategory) answer"

definition AbductionHypothesesList_schema :: "AbductionHypothesesList \<Rightarrow> bool" where
  "AbductionHypothesesList_schema answer = True"

definition ranked_diagnoses :: "string list \<Rightarrow> RankedHypothesesList \<Rightarrow> bool" where
  "ranked_diagnoses diagnoses answer =
    (10 \<le> length answer \<and> length answer \<le> 10 \<and>
     list_all (\<lambda>h. r_diagnosis h \<in> set diagnoses) answer)"

definition ExpectedFinding_schema :: "ExpectedFinding \<Rightarrow> bool" where
  "ExpectedFinding_schema c =
    (kind c \<in> set [''manifestation'', ''test_result'', ''clinical_course''] \<and>
     priority c \<in> set [''high'', ''medium'', ''low''])"

definition deduct_diagnoses :: "string list \<Rightarrow> DeductionPlan \<Rightarrow> bool" where
  "deduct_diagnoses diagnoses answer =
    (10 \<le> length answer \<and> length answer \<le> 10 \<and>
     list_all (\<lambda>h. d_diagnosis h \<in> set diagnoses \<and>
                    list_all ExpectedFinding_schema (predicted_consequences h)) answer)"

definition EvaluatedExpectedFinding_schema :: "EvaluatedExpectedFinding \<Rightarrow> bool" where
  "EvaluatedExpectedFinding_schema f =
    (status f \<in> set [''confirmed'', ''not_observed'', ''contradicted''])"

definition induct_diagnoses :: "string list \<Rightarrow> InductionResult \<Rightarrow> bool" where
  "induct_diagnoses diagnoses answer =
    (10 \<le> length answer \<and> length answer \<le> 10 \<and>
     list_all (\<lambda>h. e_diagnosis h \<in> set diagnoses \<and>
                    evaluation h \<in> set [''plausible'', ''refuted''] \<and>
                    termination_recommendation h \<in>
                      set [''sufficient_explanation_reached'', ''continue_testing'',
                           ''reopen_abduction''] \<and>
                    list_all EvaluatedExpectedFinding_schema (evaluated_findings h)) answer)"

section \<open>The backend call\<close>

text \<open>
  One attempt of \<^verbatim>\<open>call_llm\<close> is \<^verbatim>\<open>ollama.chat(...)\<close> followed by \<^verbatim>\<open>json.loads\<close>: it
  yields the decoded answer, or \<^verbatim>\<open>JSONDecodeError\<close>, or some other exception. The
  backend is a parameter: a function of the model name, the messages, the schema passed as
  \<^verbatim>\<open>format\<close> and the number of the attempt.
\<close>

datatype 'a attempt = Content 'a | JSONDecodeError | Raises string

text \<open>The messages of each phase, as the data its prompt is rendered from.\<close>

datatype messages =
    AbstractionMessages string
  | UnfocusedMessages string "abstraction_item list" int
  | FocusedMessages string "abstraction_item list" "DiagnosticHypothesis list" "int option"
  | RankingMessages bool string "hypothesis_dict list"
  | DeductionMessages "RankedDiagnosticHypothesis list"
  | InductionMessages string "HypothesisDeduction list"

type_synonym 'a chat = "string \<Rightarrow> messages \<Rightarrow> ('a \<Rightarrow> bool) \<Rightarrow> nat \<Rightarrow> 'a attempt"

text \<open>
  The loop \<^verbatim>\<open>for attempt in range(1, max_retries + 1)\<close>: \<open>None\<close> when the loop ends
  without returning or raising.
\<close>

primrec retry_loop :: "(nat \<Rightarrow> 'a attempt) \<Rightarrow> nat \<Rightarrow> nat \<Rightarrow> (error + 'a) option" where
  "retry_loop respond attempt 0 = None"
| "retry_loop respond attempt (Suc remaining) =
    (case respond attempt of
       Content answer \<Rightarrow> Some (Inr answer)
     | JSONDecodeError \<Rightarrow> retry_loop respond (Suc attempt) remaining
     | Raises e \<Rightarrow> Some (Inl (Reraised e)))"

definition call_llm :: "'a chat \<Rightarrow> messages \<Rightarrow> string \<Rightarrow> ('a \<Rightarrow> bool) \<Rightarrow> int \<Rightarrow> error + 'a" where
  "call_llm chat msgs model_name response_format max_retries =
    (case retry_loop (chat model_name msgs response_format) 1 (nat max_retries) of
       Some r \<Rightarrow> r
     | None \<Rightarrow> Inl (RuntimeError max_retries))"

text \<open>The default \<^verbatim>\<open>max_retries: int = 10\<close>, which every phase uses.\<close>

definition default_max_retries :: int where
  "default_max_retries = 10"

record backend =
  chat_abstraction :: "AbstractionFeaturesList chat"
  chat_abduction :: "AbductionHypothesesList chat"
  chat_ranking :: "RankedHypothesesList chat"
  chat_deduction :: "DeductionPlan chat"
  chat_induction :: "InductionResult chat"

section \<open>Random sampling\<close>

text \<open>
  \<^verbatim>\<open>random.sample(population, k)\<close> of the standard library (CPython 3.11), with its random
  source injected: \<open>draw t\<close> is the raw value of the call number \<open>t\<close> of \<^verbatim>\<open>randbelow\<close>,
  counted from 0, and \<^verbatim>\<open>randbelow(n)\<close> is that value reduced modulo \<open>n\<close>. A negative \<open>k\<close>
  or one above the size of the population raises \<^verbatim>\<open>ValueError\<close>. The library then
  chooses between two methods by the size of the population.

  \<^verbatim>\<open>setsize\<close> is 21, to which \<^verbatim>\<open>4 ** _ceil(_log(k * 3, 4))\<close> is added when \<open>k > 5\<close>. The
  library computes the logarithm in floating point; \<open>ceil_log4 x\<close> is the exact value, the
  least \<open>e\<close> with \<open>x \<le> 4 ^ e\<close> (\<open>ceil_log4_least\<close> below), which the floating-point value
  equals for every \<open>k\<close> below \<open>4 ^ 25 div 3\<close>.
\<close>

fun ceil_log4 :: "nat \<Rightarrow> nat" where
  "ceil_log4 x = (if x \<le> 1 then 0 else Suc (ceil_log4 ((x + 3) div 4)))"

declare ceil_log4.simps [simp del]

definition setsize :: "nat \<Rightarrow> nat" where
  "setsize k = (if 5 < k then 21 + 4 ^ ceil_log4 (k * 3) else 21)"

text \<open>
  A population of at most \<^verbatim>\<open>setsize\<close> elements is copied to a pool. Step \<open>i\<close> draws a
  position \<open>j\<close> below \<open>n - i\<close>, takes \<^verbatim>\<open>pool[j]\<close> and moves \<^verbatim>\<open>pool[n - i - 1]\<close> into its
  place; only the first \<open>n - i\<close> elements of the pool are read again, and they are the pool
  of the model, which drops the last element where the library leaves it behind.
\<close>

fun sample_pool :: "(nat \<Rightarrow> nat) \<Rightarrow> nat \<Rightarrow> 'a list \<Rightarrow> nat \<Rightarrow> 'a list" where
  "sample_pool draw i pool 0 = []"
| "sample_pool draw i pool (Suc k) =
    (let j = draw i mod length pool
     in pool ! j # sample_pool draw (Suc i) (butlast (pool[j := last pool])) k)"

text \<open>
  For a larger population the library keeps the set of the positions selected so far. Each
  step draws a position below \<open>n\<close> and draws again while the position is in the set:
  \<^verbatim>\<open>j = randbelow(n)\<close>, \<^verbatim>\<open>while j in selected: j = randbelow(n)\<close>. This loop need not end;
  \<open>reselect\<close> is \<open>None\<close> when it does not, and otherwise the position found together with
  the number of the next call of \<^verbatim>\<open>randbelow\<close>.
\<close>

partial_function (option) reselect ::
  "(nat \<Rightarrow> nat) \<Rightarrow> nat \<Rightarrow> nat set \<Rightarrow> nat \<Rightarrow> nat \<Rightarrow> (nat \<times> nat) option" where
  "reselect draw n selected t j =
    (if j \<in> selected then reselect draw n selected (Suc t) (draw t mod n) else Some (j, t))"

fun sample_selected :: "(nat \<Rightarrow> nat) \<Rightarrow> 'a list \<Rightarrow> nat set \<Rightarrow> nat \<Rightarrow> nat \<Rightarrow> 'a list option" where
  "sample_selected draw population selected t 0 = Some []"
| "sample_selected draw population selected t (Suc k) =
    (case reselect draw (length population) selected (Suc t) (draw t mod length population) of
       None \<Rightarrow> None
     | Some (j, t') \<Rightarrow>
         map_option (\<lambda>result. population ! j # result)
           (sample_selected draw population (insert j selected) t' k))"

text \<open>\<open>None\<close>: the call does not return.\<close>

definition random_sample :: "(nat \<Rightarrow> nat) \<Rightarrow> 'a list \<Rightarrow> int \<Rightarrow> (error + 'a list) option" where
  "random_sample draw population k =
    (let n = length population in
     if k < 0 \<or> int n < k
     then Some (Inl (ValueError ''Sample larger than population or is negative''))
     else if n \<le> setsize (nat k)
     then Some (Inr (sample_pool draw 0 population (nat k)))
     else map_option Inr (sample_selected draw population {} 0 (nat k)))"

section \<open>The phases\<close>

text \<open>\<^verbatim>\<open>abstraction.py\<close>\<close>

definition abstraction_postprocessing :: "AbstractionFeaturesList \<Rightarrow> abstraction_item list" where
  "abstraction_postprocessing answer =
    concat (map (\<lambda>feature.
      map (\<lambda>f. \<lparr>a_category = category feature, a_finding = finding f,
                 a_explanation = f_explanation f\<rparr>) (findings feature)) answer)"

definition query_abstraction ::
  "backend \<Rightarrow> string \<Rightarrow> string \<Rightarrow> int \<Rightarrow> error + abstraction_item list option" where
  "query_abstraction b case_txt model_name iteration =
    and_then (call_llm (chat_abstraction b) (AbstractionMessages case_txt) model_name
                AbstractionFeaturesList_schema default_max_retries)
      (\<lambda>answer. Inr (Some (abstraction_postprocessing answer)))"

text \<open>
  \<^verbatim>\<open>abduction.py\<close>. \<^verbatim>\<open>abstraction_output.copy()\<close> and \<^verbatim>\<open>unfocused_output.get(...)\<close> raise
  \<^verbatim>\<open>AttributeError\<close> on \<^verbatim>\<open>None\<close>; \<^verbatim>\<open>len(...) > max_focused\<close> raises \<^verbatim>\<open>TypeError\<close> when
  \<^verbatim>\<open>max_focused\<close> is \<^verbatim>\<open>None\<close>. The focused abduction calls \<^verbatim>\<open>random.sample\<close>, so it is
  \<open>None\<close> when that call does not return.
\<close>

definition copy_list :: "'a list option \<Rightarrow> error + 'a list" where
  "copy_list xs = (case xs of None \<Rightarrow> Inl (AttributeError ''copy'') | Some ys \<Rightarrow> Inr ys)"

definition get_hypotheses :: "'a list option \<Rightarrow> error + 'a list" where
  "get_hypotheses d = (case d of None \<Rightarrow> Inl (AttributeError ''get'') | Some hs \<Rightarrow> Inr hs)"

definition query_abduction_unfocused ::
  "backend \<Rightarrow> string \<Rightarrow> abstraction_item list option \<Rightarrow> string \<Rightarrow> int \<Rightarrow> int \<Rightarrow>
   error + AbductionHypothesesList" where
  "query_abduction_unfocused b case_txt abstraction_output model_name max_unfocused iteration =
    and_then (copy_list abstraction_output) (\<lambda>features.
      call_llm (chat_abduction b) (UnfocusedMessages case_txt features max_unfocused) model_name
        AbductionHypothesesList_schema default_max_retries)"

definition query_abduction_focused ::
  "backend \<Rightarrow> (nat \<Rightarrow> nat) \<Rightarrow> string \<Rightarrow> abstraction_item list option \<Rightarrow>
   AbductionHypothesesList option \<Rightarrow> string \<Rightarrow> int option \<Rightarrow> int \<Rightarrow>
   (error + AbductionHypothesesList) option" where
  "query_abduction_focused b draw case_txt abstraction_output unfocused_output model_name
      max_focused iteration =
    (case and_then (copy_list abstraction_output) (\<lambda>features.
          and_then (get_hypotheses unfocused_output) (\<lambda>unfocused_hyp.
            call_llm (chat_abduction b)
              (FocusedMessages case_txt features unfocused_hyp max_focused) model_name
              AbductionHypothesesList_schema default_max_retries)) of
       Inl e \<Rightarrow> Some (Inl e)
     | Inr answer \<Rightarrow>
         (case max_focused of
            None \<Rightarrow> Some (Inl (TypeError ''> not supported between int and NoneType''))
          | Some k \<Rightarrow>
              if int (length answer) > k then random_sample draw answer k
              else Some (Inr answer)))"

text \<open>\<^verbatim>\<open>ranking.py\<close>. Python's \<^verbatim>\<open>sorted\<close> is stable, as \<open>sort_key\<close> is.\<close>

definition query_rank_hypotheses ::
  "backend \<Rightarrow> string \<Rightarrow> hypothesis_dict list option \<Rightarrow> string \<Rightarrow> int \<Rightarrow>
   error + RankedHypothesesList" where
  "query_rank_hypotheses b case_txt abduction_output model_name iteration =
    and_then (get_hypotheses abduction_output) (\<lambda>hypotheses.
      let is_post_induction = list_ex has_induction_keys hypotheses;
          focused_diagnoses = map dict_diagnosis hypotheses
      in and_then (call_llm (chat_ranking b)
                     (RankingMessages is_post_induction case_txt hypotheses) model_name
                     (ranked_diagnoses focused_diagnoses) default_max_retries)
           (\<lambda>answer. Inr (sort_key (\<lambda>d. rank (position d)) answer)))"

text \<open>\<^verbatim>\<open>deduction.py\<close>\<close>

definition query_deduction ::
  "backend \<Rightarrow> RankedHypothesesList \<Rightarrow> string \<Rightarrow> int \<Rightarrow> error + DeductionPlan" where
  "query_deduction b ranking_output model_name iteration =
    (let ranked_hypotheses = sort_key (\<lambda>h. rank (position h)) ranking_output
     in call_llm (chat_deduction b) (DeductionMessages ranked_hypotheses) model_name
          (deduct_diagnoses (map r_diagnosis ranked_hypotheses)) default_max_retries)"

text \<open>\<^verbatim>\<open>induction.py\<close>: the whole answer, and the hypotheses evaluated plausible.\<close>

definition query_induction ::
  "backend \<Rightarrow> string \<Rightarrow> DeductionPlan \<Rightarrow> string \<Rightarrow> int \<Rightarrow>
   error + (InductionResult \<times> InductionResult)" where
  "query_induction b case_txt deduction_output model_name iteration =
    and_then (call_llm (chat_induction b) (InductionMessages case_txt deduction_output) model_name
                (induct_diagnoses (map d_diagnosis deduction_output)) default_max_retries)
      (\<lambda>answer. Inr (answer, filter (\<lambda>h. evaluation h = ''plausible'') answer))"

section \<open>The shared state\<close>

text \<open>
  \<^verbatim>\<open>EpistState\<close> is a \<^verbatim>\<open>TypedDict\<close> with \<^verbatim>\<open>total=False\<close>: every key may be missing, and
  \<open>None\<close> is the missing key. Only \<^verbatim>\<open>abstraction\<close> can hold Python's \<^verbatim>\<open>None\<close> (the value
  of its phase), so its field has a second \<open>option\<close>: \<open>Some None\<close> is the key with the
  value \<^verbatim>\<open>None\<close>. A node returns a dictionary of the same type, the patch: the keys it
  holds are the keys it writes.
\<close>

record EpistState =
  case_text :: "string option"
  model :: "string option"
  clust :: "string option"
  top_k :: "int option"
  abstraction :: "abstraction_item list option option"
  abduction_unfocused :: "AbductionHypothesesList option"
  abduction_focused :: "AbductionHypothesesList option"
  ranking :: "RankedHypothesesList option"
  deduction :: "DeductionPlan option"
  induction :: "InductionResult option"
  induction_plausible :: "InductionResult option"
  reranked :: "bool option"
  iter :: "int option"
  suffix :: "string option"
  stop :: "bool option"

definition empty_dict :: EpistState where
  "empty_dict =
    \<lparr>case_text = None, model = None, clust = None, top_k = None, abstraction = None,
     abduction_unfocused = None, abduction_focused = None, ranking = None, deduction = None,
     induction = None, induction_plausible = None, reranked = None, iter = None,
     suffix = None, stop = None\<rparr>"

text \<open>Merging a patch: every key of the patch replaces the state's value, key by key.\<close>

definition overwrite :: "'a option \<Rightarrow> 'a option \<Rightarrow> 'a option" where
  "overwrite old new = (case new of None \<Rightarrow> old | Some v \<Rightarrow> Some v)"

definition update :: "EpistState \<Rightarrow> EpistState \<Rightarrow> EpistState" where
  "update s patch =
    \<lparr>case_text = overwrite (case_text s) (case_text patch),
     model = overwrite (model s) (model patch),
     clust = overwrite (clust s) (clust patch),
     top_k = overwrite (top_k s) (top_k patch),
     abstraction = overwrite (abstraction s) (abstraction patch),
     abduction_unfocused = overwrite (abduction_unfocused s) (abduction_unfocused patch),
     abduction_focused = overwrite (abduction_focused s) (abduction_focused patch),
     ranking = overwrite (ranking s) (ranking patch),
     deduction = overwrite (deduction s) (deduction patch),
     induction = overwrite (induction s) (induction patch),
     induction_plausible = overwrite (induction_plausible s) (induction_plausible patch),
     reranked = overwrite (reranked s) (reranked patch),
     iter = overwrite (iter s) (iter patch),
     suffix = overwrite (suffix s) (suffix patch),
     stop = overwrite (stop s) (stop patch)\<rparr>"

text \<open>The dictionary \<^verbatim>\<open>main.py\<close> starts a run with.\<close>

definition inputs :: "string \<Rightarrow> string \<Rightarrow> string \<Rightarrow> int \<Rightarrow> EpistState" where
  "inputs CASE_TEXT MODEL SUFFIX k =
    empty_dict\<lparr>case_text := Some CASE_TEXT, model := Some MODEL, suffix := Some SUFFIX,
               iter := Some 0, top_k := Some k\<rparr>"

section \<open>The nodes and the routers\<close>

text \<open>
  \<^verbatim>\<open>framework_implementation.py\<close>. The nodes call the phase functions the module imports;
  here they are the fields of a record \<open>p\<close>, so that what is proved of the graph holds
  for every phase executor. A phase of the record returns or raises. \<open>imported_phases\<close>
  are the repository's own; a focused abduction that does not return is the failure
  \<open>NoReturn\<close> of its node, which no later node follows.
\<close>

record phases =
  ph_abstraction :: "string \<Rightarrow> string \<Rightarrow> int \<Rightarrow> error + abstraction_item list option"
  ph_abduction_unfocused ::
    "string \<Rightarrow> abstraction_item list option \<Rightarrow> string \<Rightarrow> int \<Rightarrow> int \<Rightarrow>
     error + AbductionHypothesesList"
  ph_abduction_focused ::
    "string \<Rightarrow> abstraction_item list option \<Rightarrow> AbductionHypothesesList option \<Rightarrow> string \<Rightarrow>
     int option \<Rightarrow> int \<Rightarrow> error + AbductionHypothesesList"
  ph_rank_hypotheses ::
    "string \<Rightarrow> hypothesis_dict list option \<Rightarrow> string \<Rightarrow> int \<Rightarrow> error + RankedHypothesesList"
  ph_deduction :: "RankedHypothesesList \<Rightarrow> string \<Rightarrow> int \<Rightarrow> error + DeductionPlan"
  ph_induction ::
    "string \<Rightarrow> DeductionPlan \<Rightarrow> string \<Rightarrow> int \<Rightarrow> error + (InductionResult \<times> InductionResult)"

definition imported_phases :: "backend \<Rightarrow> (nat \<Rightarrow> nat) \<Rightarrow> phases" where
  "imported_phases b draw =
    \<lparr>ph_abstraction = query_abstraction b,
     ph_abduction_unfocused = query_abduction_unfocused b,
     ph_abduction_focused = (\<lambda>c a u m k i.
       case query_abduction_focused b draw c a u m k i of
         None \<Rightarrow> Inl NoReturn
       | Some r \<Rightarrow> r),
     ph_rank_hypotheses = query_rank_hypotheses b,
     ph_deduction = query_deduction b,
     ph_induction = query_induction b\<rparr>"

text \<open>\<^verbatim>\<open>s.get("iter", 0)\<close> and \<^verbatim>\<open>s.get("reranked", False)\<close>\<close>

definition get_iter :: "EpistState \<Rightarrow> int" where
  "get_iter s = (case iter s of None \<Rightarrow> 0 | Some i \<Rightarrow> i)"

definition get_reranked :: "EpistState \<Rightarrow> bool" where
  "get_reranked s = (case reranked s of None \<Rightarrow> False | Some r \<Rightarrow> r)"

definition n_abstraction :: "phases \<Rightarrow> EpistState \<Rightarrow> error + EpistState" where
  "n_abstraction p s =
    and_then (getitem (case_text s) ''case_text'') (\<lambda>c.
    and_then (getitem (model s) ''model'') (\<lambda>m.
    and_then (getitem (iter s) ''iter'') (\<lambda>i.
    and_then (ph_abstraction p c m i) (\<lambda>out.
      Inr (empty_dict\<lparr>abstraction := Some out\<rparr>)))))"

definition route_after_abstraction :: "EpistState \<Rightarrow> string" where
  "route_after_abstraction s =
    (if abstraction s \<noteq> None \<and> abstraction s \<noteq> Some None then ''continue'' else ''end'')"

definition n_abduction_unfocused :: "phases \<Rightarrow> EpistState \<Rightarrow> error + EpistState" where
  "n_abduction_unfocused p s =
    and_then (getitem (top_k s) ''top_k'') (\<lambda>k.
    and_then (getitem (case_text s) ''case_text'') (\<lambda>c.
    and_then (getitem (abstraction s) ''abstraction'') (\<lambda>a.
    and_then (getitem (model s) ''model'') (\<lambda>m.
    and_then (getitem (iter s) ''iter'') (\<lambda>i.
    and_then (ph_abduction_unfocused p c a m k i) (\<lambda>out.
      Inr (empty_dict\<lparr>abduction_unfocused := Some out, top_k := Some k\<rparr>)))))))"

definition n_abduction_focused :: "phases \<Rightarrow> EpistState \<Rightarrow> error + EpistState" where
  "n_abduction_focused p s =
    and_then (getitem (case_text s) ''case_text'') (\<lambda>c.
    and_then (getitem (model s) ''model'') (\<lambda>m.
    and_then (getitem (iter s) ''iter'') (\<lambda>i.
    and_then (ph_abduction_focused p c (case abstraction s of None \<Rightarrow> None | Some a \<Rightarrow> a)
                (abduction_unfocused s) m (top_k s) i) (\<lambda>out.
      Inr (empty_dict\<lparr>abduction_focused := Some out\<rparr>)))))"

definition n_ranking :: "phases \<Rightarrow> EpistState \<Rightarrow> error + EpistState" where
  "n_ranking p s =
    (let iter' = get_iter s in
     if induction s \<noteq> None \<and> \<not> get_reranked s
     then
       and_then (getitem (induction s) ''induction'') (\<lambda>ind.
       let abduction_like = Some (map InductionDict ind) in
       and_then (getitem (case_text s) ''case_text'') (\<lambda>c.
       and_then (getitem (model s) ''model'') (\<lambda>m.
       and_then (ph_rank_hypotheses p c abduction_like m iter') (\<lambda>out.
         Inr (empty_dict\<lparr>ranking := Some (sort_key (\<lambda>h. rank (position h)) out),
                         reranked := Some True\<rparr>)))))
     else
       and_then (getitem (case_text s) ''case_text'') (\<lambda>c.
       and_then (getitem (model s) ''model'') (\<lambda>m.
       and_then (ph_rank_hypotheses p c
                   (case abduction_focused s of None \<Rightarrow> None
                    | Some hs \<Rightarrow> Some (map AbductionDict hs)) m iter') (\<lambda>out.
         Inr (empty_dict\<lparr>ranking := Some (sort_key (\<lambda>h. rank (position h)) out),
                         reranked := Some False\<rparr>)))))"

definition n_deduction :: "phases \<Rightarrow> EpistState \<Rightarrow> error + EpistState" where
  "n_deduction p s =
    and_then (getitem (ranking s) ''ranking'') (\<lambda>r.
    and_then (getitem (model s) ''model'') (\<lambda>m.
    and_then (ph_deduction p r m (get_iter s)) (\<lambda>out.
      Inr (empty_dict\<lparr>deduction := Some out\<rparr>))))"

definition n_induction :: "phases \<Rightarrow> EpistState \<Rightarrow> error + EpistState" where
  "n_induction p s =
    and_then (getitem (case_text s) ''case_text'') (\<lambda>c.
    and_then (getitem (model s) ''model'') (\<lambda>m.
    and_then (getitem (deduction s) ''deduction'') (\<lambda>d.
    and_then (ph_induction p c d m (get_iter s)) (\<lambda>(out_all, out_plausible).
      let iter_next = get_iter s + 1 in
      Inr (empty_dict\<lparr>induction := Some out_all, induction_plausible := Some out_plausible,
                      iter := Some iter_next\<rparr>)))))"

definition route_after_ranking :: "EpistState \<Rightarrow> string" where
  "route_after_ranking s = (if get_reranked s then ''end'' else ''continue'')"

section \<open>The graph\<close>

datatype node = Abstraction | AbductionUnfocused | AbductionFocused | Ranking | Deduction | Induction

datatype target = Node node | END

record graph =
  nodes :: "(node \<times> (EpistState \<Rightarrow> error + EpistState)) list"
  entry_point :: node
  edges :: "(node \<times> node) list"
  conditional_edges :: "(node \<times> (EpistState \<Rightarrow> string) \<times> (string \<times> target) list) list"

text \<open>
  \<^verbatim>\<open>graph_definition\<close>, in the order of its calls: the plain edge from \<^verbatim>\<open>abstraction\<close> to
  \<^verbatim>\<open>abduction_unfocused\<close> is added as well as the conditional edges from \<^verbatim>\<open>abstraction\<close>.
\<close>

definition graph_definition :: "phases \<Rightarrow> graph" where
  "graph_definition p =
    \<lparr>nodes =
       [(Abstraction, n_abstraction p), (AbductionUnfocused, n_abduction_unfocused p),
        (AbductionFocused, n_abduction_focused p), (Ranking, n_ranking p),
        (Deduction, n_deduction p), (Induction, n_induction p)],
     entry_point = Abstraction,
     edges =
       [(Abstraction, AbductionUnfocused), (AbductionUnfocused, AbductionFocused),
        (AbductionFocused, Ranking), (Deduction, Induction), (Induction, Ranking)],
     conditional_edges =
       [(Abstraction, route_after_abstraction,
           [(''continue'', Node AbductionUnfocused), (''end'', END)]),
        (Ranking, route_after_ranking, [(''continue'', Node Deduction), (''end'', END)])]\<rparr>"

section \<open>The graph engine\<close>

text \<open>
  The repository builds the graph with the LangGraph library and runs it with
  \<^verbatim>\<open>app.stream(inputs, {"recursion_limit": 60})\<close>; the step loop is the library's, not a
  source of the repository. It is modelled here as the library runs a graph: a step runs
  the current nodes on the current state, merges their patches into the state and resolves
  the next nodes, which are the targets of the plain edges of the nodes just run together
  with the target each of their routers selects. Edges add up: a plain edge is followed
  whatever a router of the same node returns, and a node that is the target of several edges
  runs once. The run ends when no node is next (\<^verbatim>\<open>END\<close>), fails when a node raises, and
  fails with \<^verbatim>\<open>GraphRecursionError\<close> when the limit of steps is used up. The library checks
  the limit before it looks for the next nodes, so a run that needs as many steps as the
  limit allows fails as well, after its last step. In this graph every step runs a single
  node (\<open>next_single\<close> below).
\<close>

datatype outcome = Terminal | Failed node error | GraphRecursionError

record run_result =
  trace :: "(node \<times> EpistState \<times> EpistState) list"
  final_state :: EpistState
  outcome :: outcome

definition edge_targets :: "graph \<Rightarrow> node \<Rightarrow> node list" where
  "edge_targets g n = map snd (filter (\<lambda>e. fst e = n) (edges g))"

definition branch_targets :: "graph \<Rightarrow> node \<Rightarrow> EpistState \<Rightarrow> node list" where
  "branch_targets g n s =
    concat (map (\<lambda>(source, path, path_map).
      if source = n
      then (case map_of path_map (path s) of Some (Node m) \<Rightarrow> [m] | Some END \<Rightarrow> [] | None \<Rightarrow> [])
      else []) (conditional_edges g))"

definition next_nodes :: "graph \<Rightarrow> node list \<Rightarrow> EpistState \<Rightarrow> node list" where
  "next_nodes g ns s = remdups (concat (map (\<lambda>n. edge_targets g n @ branch_targets g n s) ns))"

definition invoke :: "graph \<Rightarrow> node \<Rightarrow> EpistState \<Rightarrow> error + EpistState" where
  "invoke g n s = (case map_of (nodes g) n of None \<Rightarrow> Inl (KeyError ''node'') | Some f \<Rightarrow> f s)"

fun superstep :: "graph \<Rightarrow> node list \<Rightarrow> EpistState \<Rightarrow> (node \<times> error) + (node \<times> EpistState) list" where
  "superstep g [] s = Inr []"
| "superstep g (n # ns) s =
    (case invoke g n s of
       Inl e \<Rightarrow> Inl (n, e)
     | Inr patch \<Rightarrow>
         (case superstep g ns s of Inl ne \<Rightarrow> Inl ne | Inr ps \<Rightarrow> Inr ((n, patch) # ps)))"

fun run_loop :: "graph \<Rightarrow> nat \<Rightarrow> node list \<Rightarrow> EpistState \<Rightarrow>
    (node \<times> EpistState \<times> EpistState) list \<Rightarrow> run_result" where
  "run_loop g 0 ns s tr = \<lparr>trace = tr, final_state = s, outcome = GraphRecursionError\<rparr>"
| "run_loop g (Suc budget) [] s tr = \<lparr>trace = tr, final_state = s, outcome = Terminal\<rparr>"
| "run_loop g (Suc budget) (n # ns) s tr =
    (case superstep g (n # ns) s of
       Inl (m, e) \<Rightarrow> \<lparr>trace = tr, final_state = s, outcome = Failed m e\<rparr>
     | Inr ps \<Rightarrow>
         (let s' = foldl update s (map snd ps)
          in run_loop g budget (next_nodes g (n # ns) s') s'
               (tr @ map (\<lambda>(m, patch). (m, patch, s')) ps)))"

text \<open>\<^verbatim>\<open>run_with_human_log\<close>: the stream of the compiled graph, with its limit of 60 steps.\<close>

definition recursion_limit :: nat where
  "recursion_limit = 60"

definition run :: "phases \<Rightarrow> EpistState \<Rightarrow> run_result" where
  "run p s0 =
    (let g = graph_definition p in run_loop g recursion_limit [entry_point g] s0 [])"

definition executed :: "run_result \<Rightarrow> node list" where
  "executed r = map fst (trace r)"

text \<open>The state after step \<open>k\<close> of a run, steps counted from 1.\<close>

definition state_after :: "run_result \<Rightarrow> nat \<Rightarrow> EpistState option" where
  "state_after r k =
    (if 1 \<le> k \<and> k \<le> length (trace r) then Some (snd (snd (trace r ! (k - 1)))) else None)"

section \<open>Predicates on runs and backends\<close>

text \<open>
  The nodes still to run when node \<open>n\<close> is about to run in state \<open>s\<close>, if no node raises.
\<close>

definition plan :: "node \<Rightarrow> EpistState \<Rightarrow> node list" where
  "plan n s =
    (case n of
       Abstraction \<Rightarrow>
         [Abstraction, AbductionUnfocused, AbductionFocused, Ranking, Deduction, Induction, Ranking]
     | AbductionUnfocused \<Rightarrow>
         [AbductionUnfocused, AbductionFocused, Ranking, Deduction, Induction, Ranking]
     | AbductionFocused \<Rightarrow> [AbductionFocused, Ranking, Deduction, Induction, Ranking]
     | Ranking \<Rightarrow>
         (if induction s = None then [Ranking, Deduction, Induction, Ranking] else [Ranking])
     | Deduction \<Rightarrow> [Deduction, Induction, Ranking]
     | Induction \<Rightarrow> [Induction, Ranking])"

definition on_track :: "node \<Rightarrow> EpistState \<Rightarrow> bool" where
  "on_track n s =
    (\<not> get_reranked s \<and>
     (if n = Abstraction \<or> n = AbductionUnfocused \<or> n = AbductionFocused
      then induction s = None else True))"

text \<open>
  A run against a planned sequence of nodes: it reaches the terminal marker having executed
  exactly the planned nodes, or a node fails (it raises, or its phase does not return) and
  the nodes executed so far, followed by the node that failed, are a prefix of the plan. The
  limit of steps is not reached.
\<close>

definition completes_or_aborts :: "node list \<Rightarrow> run_result \<Rightarrow> bool" where
  "completes_or_aborts planned r =
    (case outcome r of
       Terminal \<Rightarrow> executed r = planned
     | Failed m e \<Rightarrow>
         length (executed r) < length planned \<and>
         executed r @ [m] = take (Suc (length (executed r))) planned
     | GraphRecursionError \<Rightarrow> False)"


text \<open>
  The backend honours the \<^verbatim>\<open>format\<close> parameter: every answer it gives validates against
  the schema it was called with.
\<close>

definition honours_format :: "'a chat \<Rightarrow> bool" where
  "honours_format chat =
    (\<forall>m msgs fmt n answer. chat m msgs fmt n = Content answer \<longrightarrow> fmt answer)"

section \<open>Example data\<close>

text \<open>
  Concrete answers, backends, states and inputs: the closed theorems below evaluate the
  code on them. \<open>example_backend\<close> answers every call at the first attempt and ranks the
  hypotheses in the order it is given them.
\<close>

definition plain_rank :: "int \<Rightarrow> Rank" where
  "plain_rank r = \<lparr>rank = r, parsimony = '''', danger = '''', cost = '''', curability = ''''\<rparr>"

definition ranked :: "string \<Rightarrow> int \<Rightarrow> RankedDiagnosticHypothesis" where
  "ranked d r = \<lparr>r_diagnosis = d, position = plain_rank r\<rparr>"

definition hypothesis :: "string \<Rightarrow> DiagnosticHypothesis" where
  "hypothesis d = \<lparr>diagnosis = d, explanation = '''', supporting_features = [''rash'']\<rparr>"

definition evaluated :: "string \<Rightarrow> string \<Rightarrow> EvaluatedHypothesis" where
  "evaluated d e =
    \<lparr>e_diagnosis = d, evaluation = e, e_explanation = '''',
     termination_recommendation = ''continue_testing'', evaluated_findings = []\<rparr>"

definition ten :: "'a \<Rightarrow> 'a list" where
  "ten x = [x, x, x, x, x, x, x, x, x, x]"

definition example_features :: AbstractionFeaturesList where
  "example_features =
    [\<lparr>category = ''Allergies'',
      findings = [\<lparr>finding = ''rash'', f_explanation = ''rash after penicillin''\<rparr>]\<rparr>]"

definition example_backend :: backend where
  "example_backend =
    \<lparr>chat_abstraction = (\<lambda>m msgs fmt n. Content example_features),
     chat_abduction = (\<lambda>m msgs fmt n. Content [hypothesis ''drug eruption'', hypothesis ''measles'']),
     chat_ranking = (\<lambda>m msgs fmt n.
        case msgs of
          RankingMessages post c hyps \<Rightarrow>
            Content (map (\<lambda>(i, h). ranked (dict_diagnosis h) (int i)) (enumerate 1 hyps))
        | _ \<Rightarrow> JSONDecodeError),
     chat_deduction = (\<lambda>m msgs fmt n.
        case msgs of
          DeductionMessages hs \<Rightarrow>
            Content (map (\<lambda>h. \<lparr>d_diagnosis = r_diagnosis h, predicted_consequences = []\<rparr>) hs)
        | _ \<Rightarrow> JSONDecodeError),
     chat_induction = (\<lambda>m msgs fmt n.
        case msgs of
          InductionMessages c hs \<Rightarrow>
            Content (map (\<lambda>h. evaluated (d_diagnosis h)
                        (if d_diagnosis h = ''measles'' then ''refuted'' else ''plausible'')) hs)
        | _ \<Rightarrow> JSONDecodeError)\<rparr>"

definition example_phases :: phases where
  "example_phases = imported_phases example_backend (\<lambda>i. 0)"

definition example_inputs :: EpistState where
  "example_inputs = inputs ''fever and rash'' ''gpt-oss:20b'' '' (plausible)'' 10"

text \<open>States in which a node is entered.\<close>

definition second_pass_state :: EpistState where
  "second_pass_state =
    example_inputs\<lparr>induction := Some [evaluated ''drug eruption'' ''plausible'',
                                      evaluated ''measles'' ''refuted''],
                   induction_plausible := Some [evaluated ''drug eruption'' ''plausible''],
                   reranked := Some False, iter := Some 1\<rparr>"

definition reranked_state :: EpistState where
  "reranked_state =
    example_inputs\<lparr>abduction_focused := Some [hypothesis ''drug eruption'', hypothesis ''measles''],
                   induction := Some [evaluated ''measles'' ''refuted''],
                   reranked := Some True\<rparr>"

definition first_pass_state :: EpistState where
  "first_pass_state = example_inputs\<lparr>abduction_focused := Some [hypothesis ''measles'']\<rparr>"

definition ranked_state :: EpistState where
  "ranked_state = example_inputs\<lparr>ranking := Some (ten (ranked ''measles'' 1)), reranked := Some False\<rparr>"

definition one_ranked_state :: EpistState where
  "one_ranked_state = example_inputs\<lparr>ranking := Some [ranked ''measles'' 1], reranked := Some False\<rparr>"

text \<open>A backend whose ranking gives every hypothesis the rank 3.\<close>

definition tied_backend :: backend where
  "tied_backend =
    example_backend\<lparr>chat_ranking := (\<lambda>m msgs fmt n. Content (ten (ranked ''measles'' 3)))\<rparr>"

text \<open>A backend whose ranking answers hold no hypothesis at all.\<close>

definition careless_backend :: backend where
  "careless_backend = example_backend\<lparr>chat_ranking := (\<lambda>m msgs fmt n. Content [])\<rparr>"

text \<open>A chat that fails to give JSON twice and then answers.\<close>

definition third_time_lucky :: "RankedHypothesesList chat" where
  "third_time_lucky m msgs fmt n =
    (if n < 3 then JSONDecodeError else Content [ranked ''measles'' 1])"

text \<open>A backend whose abduction answers hold three hypotheses, and a random source.\<close>

definition generous_backend :: backend where
  "generous_backend =
    example_backend\<lparr>chat_abduction := (\<lambda>m msgs fmt n.
      Content [hypothesis ''drug eruption'', hypothesis ''measles'', hypothesis ''scarlet fever''])\<rparr>"

definition example_draw :: "nat \<Rightarrow> nat" where
  "example_draw i = (if i = 0 then 2 else 0)"

text \<open>
  A backend whose abduction answers hold 22 hypotheses, and a random source that draws the
  position 5 twice before it draws the position 7.
\<close>

definition crowded_backend :: backend where
  "crowded_backend =
    example_backend\<lparr>chat_abduction := (\<lambda>m msgs fmt n.
      Content (map (\<lambda>d. hypothesis (replicate d CHR ''x'')) [0..<22]))\<rparr>"

definition repeating_draw :: "nat \<Rightarrow> nat" where
  "repeating_draw t = (if t < 2 then 5 else 7)"

text \<open>A backend whose deduction names a diagnosis of its own.\<close>

definition inventive_backend :: backend where
  "inventive_backend =
    example_backend\<lparr>chat_deduction := (\<lambda>m msgs fmt n.
      Content [\<lparr>d_diagnosis = ''lupus'', predicted_consequences = []\<rparr>])\<rparr>"

text \<open>
  A backend that answers for the hypotheses it is given, and only with an answer that
  validates against the schema it is called with.
\<close>

definition obedient_backend :: backend where
  "obedient_backend =
    example_backend\<lparr>
      chat_deduction := (\<lambda>m msgs fmt n.
        case msgs of
          DeductionMessages hs \<Rightarrow>
            (let answer = map (\<lambda>h. \<lparr>d_diagnosis = r_diagnosis h, predicted_consequences = []\<rparr>) hs
             in if fmt answer then Content answer else JSONDecodeError)
        | _ \<Rightarrow> JSONDecodeError),
      chat_induction := (\<lambda>m msgs fmt n.
        case msgs of
          InductionMessages c hs \<Rightarrow>
            (let answer = map (\<lambda>h. evaluated (d_diagnosis h) ''plausible'') hs
             in if fmt answer then Content answer else JSONDecodeError)
        | _ \<Rightarrow> JSONDecodeError)\<rparr>"



section \<open>Sequencing\<close>

lemma and_then_Inr [simp]: "and_then (Inr v) f = f v"
  by (simp add: and_then_def)

lemma and_then_Inl [simp]: "and_then (Inl e) f = Inl e"
  by (simp add: and_then_def)

section \<open>The backend call: which attempt decides\<close>

lemma retry_loop_None:
  "retry_loop r a n = None \<longleftrightarrow> (\<forall>i. a \<le> i \<and> i < a + n \<longrightarrow> r i = JSONDecodeError)"
proof (induction n arbitrary: a)
  case 0
  then show ?case by auto
next
  case (Suc n)
  have range: "(\<forall>i. a \<le> i \<and> i < a + Suc n \<longrightarrow> r i = JSONDecodeError) \<longleftrightarrow>
      r a = JSONDecodeError \<and> (\<forall>i. Suc a \<le> i \<and> i < Suc a + n \<longrightarrow> r i = JSONDecodeError)"
    (is "?L \<longleftrightarrow> ?R")
  proof
    assume ?L
    then show ?R by auto
  next
    assume R: ?R
    show ?L
    proof (intro allI impI)
      fix i assume "a \<le> i \<and> i < a + Suc n"
      then have "i = a \<or> (Suc a \<le> i \<and> i < Suc a + n)" by auto
      then show "r i = JSONDecodeError" using R by auto
    qed
  qed
  show ?case
    unfolding range by (cases "r a") (simp_all add: Suc.IH)
qed

lemma retry_loop_Some:
  "retry_loop r a n = Some v \<longleftrightarrow>
    (\<exists>i. a \<le> i \<and> i < a + n \<and> (\<forall>j. a \<le> j \<and> j < i \<longrightarrow> r j = JSONDecodeError) \<and>
         (case r i of Content x \<Rightarrow> v = Inr x | JSONDecodeError \<Rightarrow> False
          | Raises e \<Rightarrow> v = Inl (Reraised e)))"
  (is "_ \<longleftrightarrow> ?R a n")
proof (induction n arbitrary: a)
  case 0
  then show ?case by simp
next
  case (Suc n)
  have first: "?R a (Suc n) \<longleftrightarrow>
      (case r a of Content x \<Rightarrow> v = Inr x | JSONDecodeError \<Rightarrow> False
       | Raises e \<Rightarrow> v = Inl (Reraised e))" if "r a \<noteq> JSONDecodeError"
  proof
    assume "?R a (Suc n)"
    then obtain i where i: "a \<le> i" "\<forall>j. a \<le> j \<and> j < i \<longrightarrow> r j = JSONDecodeError"
      "case r i of Content x \<Rightarrow> v = Inr x | JSONDecodeError \<Rightarrow> False
       | Raises e \<Rightarrow> v = Inl (Reraised e)" by blast
    have "i = a"
    proof (rule ccontr)
      assume "i \<noteq> a"
      then have "a < i" using i(1) by simp
      then show False using i(2) that by simp
    qed
    then show "case r a of Content x \<Rightarrow> v = Inr x | JSONDecodeError \<Rightarrow> False
       | Raises e \<Rightarrow> v = Inl (Reraised e)" using i(3) by simp
  next
    assume "case r a of Content x \<Rightarrow> v = Inr x | JSONDecodeError \<Rightarrow> False
       | Raises e \<Rightarrow> v = Inl (Reraised e)"
    then show "?R a (Suc n)" by (intro exI[of _ a]) auto
  qed
  have later: "?R a (Suc n) \<longleftrightarrow> ?R (Suc a) n" if J: "r a = JSONDecodeError"
  proof
    assume "?R a (Suc n)"
    then obtain i where i: "a \<le> i" "i < a + Suc n"
      "\<forall>j. a \<le> j \<and> j < i \<longrightarrow> r j = JSONDecodeError"
      "case r i of Content x \<Rightarrow> v = Inr x | JSONDecodeError \<Rightarrow> False
       | Raises e \<Rightarrow> v = Inl (Reraised e)" by blast
    have "i \<noteq> a" using i(4) J by auto
    then show "?R (Suc a) n" using i by (intro exI[of _ i]) auto
  next
    assume "?R (Suc a) n"
    then obtain i where i: "Suc a \<le> i" "i < Suc a + n"
      "\<forall>j. Suc a \<le> j \<and> j < i \<longrightarrow> r j = JSONDecodeError"
      "case r i of Content x \<Rightarrow> v = Inr x | JSONDecodeError \<Rightarrow> False
       | Raises e \<Rightarrow> v = Inl (Reraised e)" by blast
    have "\<forall>j. a \<le> j \<and> j < i \<longrightarrow> r j = JSONDecodeError"
      using i(3) J by (metis Suc_leI le_neq_implies_less)
    then show "?R a (Suc n)" using i by (intro exI[of _ i]) auto
  qed
  show ?case
  proof (cases "r a")
    case (Content y)
    then show ?thesis using first by auto
  next
    case JSONDecodeError
    then show ?thesis using later Suc.IH[of "Suc a"] by simp
  next
    case (Raises e)
    then show ?thesis using first by auto
  qed
qed

lemma retry_loop_not_RuntimeError: "retry_loop r a n \<noteq> Some (Inl (RuntimeError k))"
  by (induction n arbitrary: a) (auto split: attempt.splits)

lemma call_llm_RuntimeError:
  "call_llm chat msgs m fmt n = Inl (RuntimeError n) \<longleftrightarrow>
     (\<forall>i. 1 \<le> i \<and> int i \<le> n \<longrightarrow> chat m msgs fmt i = JSONDecodeError)"
proof -
  have "(\<forall>i. 1 \<le> i \<and> i < 1 + nat n \<longrightarrow> chat m msgs fmt i = JSONDecodeError) \<longleftrightarrow>
      (\<forall>i. 1 \<le> i \<and> int i \<le> n \<longrightarrow> chat m msgs fmt i = JSONDecodeError)"
    by (intro all_cong1) (auto simp: nat_le_iff)
  then show ?thesis
    using retry_loop_None[of "chat m msgs fmt" 1 "nat n"] retry_loop_not_RuntimeError[of "chat m msgs fmt" 1 "nat n" n]
    by (auto simp: call_llm_def split: option.splits)
qed

lemma call_llm_Inr:
  "call_llm chat msgs m fmt n = Inr x \<longleftrightarrow>
     (\<exists>i. 1 \<le> i \<and> int i \<le> n \<and> chat m msgs fmt i = Content x \<and>
          (\<forall>j. 1 \<le> j \<and> j < i \<longrightarrow> chat m msgs fmt j = JSONDecodeError))"
proof -
  have bound: "\<And>i. 1 \<le> i \<Longrightarrow> i < 1 + nat n \<longleftrightarrow> int i \<le> n" by auto
  have "call_llm chat msgs m fmt n = Inr x \<longleftrightarrow>
      retry_loop (chat m msgs fmt) 1 (nat n) = Some (Inr x)"
    by (auto simp: call_llm_def split: option.splits)
  also have "\<dots> \<longleftrightarrow> (\<exists>i. 1 \<le> i \<and> i < 1 + nat n \<and>
        (\<forall>j. 1 \<le> j \<and> j < i \<longrightarrow> chat m msgs fmt j = JSONDecodeError) \<and>
        chat m msgs fmt i = Content x)"
  proof -
    have h: "(case chat m msgs fmt i of Content x' \<Rightarrow> Inr x = Inr x'
           | JSONDecodeError \<Rightarrow> False
           | Raises e' \<Rightarrow> Inr x = Inl (Reraised e')) \<longleftrightarrow>
          chat m msgs fmt i = Content x" for i
      by (cases "chat m msgs fmt i") auto
    show ?thesis unfolding retry_loop_Some h by (rule refl)
  qed
  also have "\<dots> \<longleftrightarrow> (\<exists>i. 1 \<le> i \<and> int i \<le> n \<and> chat m msgs fmt i = Content x \<and>
          (\<forall>j. 1 \<le> j \<and> j < i \<longrightarrow> chat m msgs fmt j = JSONDecodeError))"
    using bound by blast
  finally show ?thesis .
qed

lemma call_llm_Reraised:
  "call_llm chat msgs m fmt n = Inl (Reraised e) \<longleftrightarrow>
     (\<exists>i. 1 \<le> i \<and> int i \<le> n \<and> chat m msgs fmt i = Raises e \<and>
          (\<forall>j. 1 \<le> j \<and> j < i \<longrightarrow> chat m msgs fmt j = JSONDecodeError))"
proof -
  have bound: "\<And>i. 1 \<le> i \<Longrightarrow> i < 1 + nat n \<longleftrightarrow> int i \<le> n" by auto
  have "call_llm chat msgs m fmt n = Inl (Reraised e) \<longleftrightarrow>
      retry_loop (chat m msgs fmt) 1 (nat n) = Some (Inl (Reraised e))"
    by (auto simp: call_llm_def split: option.splits)
  also have "\<dots> \<longleftrightarrow> (\<exists>i. 1 \<le> i \<and> i < 1 + nat n \<and>
        (\<forall>j. 1 \<le> j \<and> j < i \<longrightarrow> chat m msgs fmt j = JSONDecodeError) \<and>
        chat m msgs fmt i = Raises e)"
  proof -
    have h: "(case chat m msgs fmt i of Content x \<Rightarrow> Inl (Reraised e) = Inr x
           | JSONDecodeError \<Rightarrow> False
           | Raises e' \<Rightarrow> Inl (Reraised e) = Inl (Reraised e')) \<longleftrightarrow>
          chat m msgs fmt i = Raises e" for i
      by (cases "chat m msgs fmt i") auto
    show ?thesis unfolding retry_loop_Some h by (rule refl)
  qed
  also have "\<dots> \<longleftrightarrow> (\<exists>i. 1 \<le> i \<and> int i \<le> n \<and> chat m msgs fmt i = Raises e \<and>
          (\<forall>j. 1 \<le> j \<and> j < i \<longrightarrow> chat m msgs fmt j = JSONDecodeError))"
    using bound by blast
  finally show ?thesis .
qed

lemma call_llm_first:
  "0 < n \<Longrightarrow> chat m msgs fmt 1 = Content x \<Longrightarrow> call_llm chat msgs m fmt n = Inr x"
  unfolding call_llm_Inr by (intro exI[of _ 1]) auto

lemma default_retries_pos: "0 < default_max_retries"
  by (simp add: default_max_retries_def)

lemma call_llm_honoured:
  "honours_format chat \<Longrightarrow> call_llm chat msgs m fmt n = Inr answer \<Longrightarrow> fmt answer"
  unfolding call_llm_Inr honours_format_def by blast

section \<open>Steps of the graph\<close>

lemma invoke_graph:
  "invoke (graph_definition p) Abstraction = n_abstraction p"
  "invoke (graph_definition p) AbductionUnfocused = n_abduction_unfocused p"
  "invoke (graph_definition p) AbductionFocused = n_abduction_focused p"
  "invoke (graph_definition p) Ranking = n_ranking p"
  "invoke (graph_definition p) Deduction = n_deduction p"
  "invoke (graph_definition p) Induction = n_induction p"
  by (simp_all add: invoke_def graph_definition_def fun_eq_iff)

lemma next_after_abstraction:
  "next_nodes (graph_definition p) [Abstraction] s = [AbductionUnfocused]"
  by (simp add: next_nodes_def edge_targets_def branch_targets_def graph_definition_def
      route_after_abstraction_def)

lemma next_plain:
  "next_nodes (graph_definition p) [AbductionUnfocused] s = [AbductionFocused]"
  "next_nodes (graph_definition p) [AbductionFocused] s = [Ranking]"
  "next_nodes (graph_definition p) [Deduction] s = [Induction]"
  "next_nodes (graph_definition p) [Induction] s = [Ranking]"
  by (simp_all add: next_nodes_def edge_targets_def branch_targets_def graph_definition_def)

lemma next_after_ranking:
  "next_nodes (graph_definition p) [Ranking] s = (if get_reranked s then [] else [Deduction])"
  by (simp add: next_nodes_def edge_targets_def branch_targets_def graph_definition_def
      route_after_ranking_def)

lemma next_single:
  "length (next_nodes (graph_definition p) [n] s) \<le> 1"
  by (cases n) (simp_all add: next_after_abstraction next_plain next_after_ranking)

lemma run_loop_single:
  "run_loop g (Suc b) [n] s tr =
    (case invoke g n s of
       Inl e \<Rightarrow> \<lparr>trace = tr, final_state = s, outcome = Failed n e\<rparr>
     | Inr patch \<Rightarrow>
         run_loop g b (next_nodes g [n] (update s patch)) (update s patch)
           (tr @ [(n, patch, update s patch)]))"
  by (simp add: Let_def split: sum.splits)

lemma node_failure_is_fatal:
  "invoke g n s = Inl e \<Longrightarrow> outcome (run_loop g (Suc budget) [n] s tr) = Failed n e"
  by simp

lemma run_loop_numeral:
  "run_loop g (numeral v) [n] s tr =
    (case invoke g n s of
       Inl e \<Rightarrow> \<lparr>trace = tr, final_state = s, outcome = Failed n e\<rparr>
     | Inr patch \<Rightarrow>
         run_loop g (pred_numeral v) (next_nodes g [n] (update s patch)) (update s patch)
           (tr @ [(n, patch, update s patch)]))"
  by (simp only: numeral_eq_Suc run_loop_single)

lemma run_loop_end:
  "run_loop g (numeral v) [] s tr = \<lparr>trace = tr, final_state = s, outcome = Terminal\<rparr>"
  by (simp add: numeral_eq_Suc)

lemma entry_point_graph: "entry_point (graph_definition p) = Abstraction"
  by (simp add: graph_definition_def)

lemma failed_abstraction_call_aborts_run:
  "call_llm (chat_abstraction b) (AbstractionMessages c) m AbstractionFeaturesList_schema
     default_max_retries = Inl err \<Longrightarrow>
   outcome (run (imported_phases b draw) (inputs c m sfx k)) = Failed Abstraction err"
  by (simp add: run_def recursion_limit_def run_loop_numeral entry_point_graph invoke_graph
      n_abstraction_def imported_phases_def query_abstraction_def inputs_def empty_dict_def
      getitem_def)

section \<open>The backend call and the run\<close>

text \<open>
  Claim C10, as amended. \<^verbatim>\<open>call_llm\<close> does not validate the answer of the backend against
  the schema, which it only passes on to the backend: it returns the first answer that
  decodes as JSON, if one of the attempts \<open>1, \<dots>, max_retries\<close> gives one before any
  other exception; it raises \<^verbatim>\<open>RuntimeError\<close> exactly when every one of these attempts
  fails to decode; and any other exception of the backend is raised again at once, with no
  further attempt. An error raised in a node ends the run as failed, and so does an error
  of \<^verbatim>\<open>call_llm\<close> in the first phase of a run, which nothing catches.
\<close>

theorem call_llm_first_decodable_answer:
  "(call_llm chat msgs m fmt n = Inr x \<longleftrightarrow>
      (\<exists>i. 1 \<le> i \<and> int i \<le> n \<and> chat m msgs fmt i = Content x \<and>
           (\<forall>j. 1 \<le> j \<and> j < i \<longrightarrow> chat m msgs fmt j = JSONDecodeError)))
   \<and> (call_llm chat msgs m fmt n = Inl (RuntimeError n) \<longleftrightarrow>
      (\<forall>i. 1 \<le> i \<and> int i \<le> n \<longrightarrow> chat m msgs fmt i = JSONDecodeError))
   \<and> (call_llm chat msgs m fmt n = Inl (Reraised e) \<longleftrightarrow>
      (\<exists>i. 1 \<le> i \<and> int i \<le> n \<and> chat m msgs fmt i = Raises e \<and>
           (\<forall>j. 1 \<le> j \<and> j < i \<longrightarrow> chat m msgs fmt j = JSONDecodeError)))
   \<and> (invoke g node s = Inl err \<longrightarrow>
        outcome (run_loop g (Suc budget) [node] s tr) = Failed node err)
   \<and> (call_llm (chat_abstraction b) (AbstractionMessages c) mdl AbstractionFeaturesList_schema
         default_max_retries = Inl err \<longrightarrow>
        outcome (run (imported_phases b draw) (inputs c mdl sfx k)) = Failed Abstraction err)"
  by (intro conjI impI call_llm_Inr call_llm_RuntimeError call_llm_Reraised)
     (erule node_failure_is_fatal, erule failed_abstraction_call_aborts_run)

theorem call_llm_first_decodable_answer_witness:
  "call_llm third_time_lucky (RankingMessages False ''fever and rash'' []) ''gpt-oss:20b''
     (ranked_diagnoses []) default_max_retries = Inr [ranked ''measles'' 1]"
proof -
  have "\<exists>i. 1 \<le> i \<and> int i \<le> default_max_retries
      \<and> third_time_lucky ''gpt-oss:20b'' (RankingMessages False ''fever and rash'' [])
           (ranked_diagnoses []) i = Content [ranked ''measles'' 1]
      \<and> (\<forall>j. 1 \<le> j \<and> j < i \<longrightarrow>
            third_time_lucky ''gpt-oss:20b'' (RankingMessages False ''fever and rash'' [])
              (ranked_diagnoses []) j = JSONDecodeError)"
    by (intro exI[of _ 3]) (simp add: third_time_lucky_def default_max_retries_def)
  then show ?thesis
    using call_llm_first_decodable_answer[of third_time_lucky
        "RankingMessages False ''fever and rash'' []" "''gpt-oss:20b''" "ranked_diagnoses []"
        default_max_retries "[ranked ''measles'' 1]"]
    by blast
qed

text \<open>
  The claim as stated fails: the ranking answer of a backend that holds no hypothesis is
  returned as it is, although the schema asks for exactly ten.
\<close>

theorem call_llm_validation_counterexample:
  "call_llm (chat_ranking careless_backend)
     (RankingMessages False ''fever and rash'' [AbductionDict (hypothesis ''measles'')])
     ''gpt-oss:20b'' (ranked_diagnoses [''measles'']) default_max_retries = Inr []
   \<and> \<not> ranked_diagnoses [''measles''] []"
  by (simp add: call_llm_first[OF default_retries_pos] careless_backend_def ranked_diagnoses_def)

section \<open>The response schemas\<close>

lemma list_all_ten: "list_all P (ten x) = P x"
  by (simp add: ten_def)

lemma length_ten: "length (ten x) = 10"
  by (simp add: ten_def)

lemma ranked_diagnoses_nonempty: "(\<exists>a. ranked_diagnoses ds a) \<longleftrightarrow> ds \<noteq> []"
proof
  assume "\<exists>a. ranked_diagnoses ds a"
  then obtain a where a: "ranked_diagnoses ds a" by blast
  then have "a \<noteq> []" by (auto simp: ranked_diagnoses_def)
  then obtain h where "h \<in> set a" by (cases a) auto
  then have "r_diagnosis h \<in> set ds" using a by (auto simp: ranked_diagnoses_def list_all_iff)
  then show "ds \<noteq> []" by auto
next
  assume "ds \<noteq> []"
  then obtain d where "d \<in> set ds" by (cases ds) auto
  then have "ranked_diagnoses ds (ten (ranked d 1))"
    by (simp add: ranked_diagnoses_def list_all_ten length_ten ranked_def)
  then show "\<exists>a. ranked_diagnoses ds a" by blast
qed

lemma deduct_diagnoses_nonempty: "(\<exists>a. deduct_diagnoses ds a) \<longleftrightarrow> ds \<noteq> []"
proof
  assume "\<exists>a. deduct_diagnoses ds a"
  then obtain a where a: "deduct_diagnoses ds a" by blast
  then have "a \<noteq> []" by (auto simp: deduct_diagnoses_def)
  then obtain h where "h \<in> set a" by (cases a) auto
  then have "d_diagnosis h \<in> set ds" using a by (auto simp: deduct_diagnoses_def list_all_iff)
  then show "ds \<noteq> []" by auto
next
  assume "ds \<noteq> []"
  then obtain d where "d \<in> set ds" by (cases ds) auto
  then have "deduct_diagnoses ds (ten \<lparr>d_diagnosis = d, predicted_consequences = []\<rparr>)"
    by (simp add: deduct_diagnoses_def list_all_ten length_ten)
  then show "\<exists>a. deduct_diagnoses ds a" by blast
qed

lemma induct_diagnoses_nonempty: "(\<exists>a. induct_diagnoses ds a) \<longleftrightarrow> ds \<noteq> []"
proof
  assume "\<exists>a. induct_diagnoses ds a"
  then obtain a where a: "induct_diagnoses ds a" by blast
  then have "a \<noteq> []" by (auto simp: induct_diagnoses_def)
  then obtain h where "h \<in> set a" by (cases a) auto
  then have "e_diagnosis h \<in> set ds" using a by (auto simp: induct_diagnoses_def list_all_iff)
  then show "ds \<noteq> []" by auto
next
  assume "ds \<noteq> []"
  then obtain d where "d \<in> set ds" by (cases ds) auto
  then have "induct_diagnoses ds (ten (evaluated d ''plausible''))"
    by (simp add: induct_diagnoses_def list_all_ten length_ten evaluated_def)
  then show "\<exists>a. induct_diagnoses ds a" by blast
qed

text \<open>
  Claim C8, as amended. Whatever the diagnoses passed in, the schemas of Ranking, Deduction
  and Induction admit only answers of exactly ten hypotheses; so for a number of
  diagnoses other than ten no schema-valid answer has one hypothesis per diagnosis. A
  schema-valid answer exists exactly when there is at least one diagnosis: the schemas do not
  ask for distinct diagnoses, so an answer may repeat or omit them.
\<close>

theorem schemas_admit_exactly_ten_hypotheses:
  "(ranked_diagnoses ds ranking_answer \<longrightarrow> length ranking_answer = 10)
   \<and> (deduct_diagnoses ds deduction_answer \<longrightarrow> length deduction_answer = 10)
   \<and> (induct_diagnoses ds induction_answer \<longrightarrow> length induction_answer = 10)
   \<and> (length ds \<noteq> 10 \<longrightarrow>
        \<not> (ranked_diagnoses ds ranking_answer \<and> length ranking_answer = length ds)
      \<and> \<not> (deduct_diagnoses ds deduction_answer \<and> length deduction_answer = length ds)
      \<and> \<not> (induct_diagnoses ds induction_answer \<and> length induction_answer = length ds))
   \<and> ((\<exists>a. ranked_diagnoses ds a) \<longleftrightarrow> ds \<noteq> [])
   \<and> ((\<exists>a. deduct_diagnoses ds a) \<longleftrightarrow> ds \<noteq> [])
   \<and> ((\<exists>a. induct_diagnoses ds a) \<longleftrightarrow> ds \<noteq> [])"
  using ranked_diagnoses_nonempty[of ds] deduct_diagnoses_nonempty[of ds]
    induct_diagnoses_nonempty[of ds]
  by (auto simp: ranked_diagnoses_def deduct_diagnoses_def induct_diagnoses_def)

theorem schemas_admit_exactly_ten_hypotheses_witness:
  "ranked_diagnoses [''measles''] (ten (ranked ''measles'' 3))
   \<and> length (ten (ranked ''measles'' 3)) = 10"
  using schemas_admit_exactly_ten_hypotheses[of "[''measles'']" "ten (ranked ''measles'' 3)"]
  by (simp add: ranked_diagnoses_def list_all_ten length_ten ranked_def)

text \<open>
  The claim as stated fails: for a single diagnosis each of the three schemas has a valid
  answer, ten hypotheses of that diagnosis.
\<close>

theorem schema_valid_answer_for_one_diagnosis:
  "length [''measles''] \<noteq> 10
   \<and> ranked_diagnoses [''measles''] (ten (ranked ''measles'' 3))
   \<and> deduct_diagnoses [''measles''] (ten \<lparr>d_diagnosis = ''measles'', predicted_consequences = []\<rparr>)
   \<and> induct_diagnoses [''measles''] (ten (evaluated ''measles'' ''plausible''))"
  by (simp add: ranked_diagnoses_def deduct_diagnoses_def induct_diagnoses_def list_all_ten
      length_ten ranked_def evaluated_def)

section \<open>Sampling without replacement\<close>

lemma length_sample_pool: "length (sample_pool draw i pool k) = k"
  by (induction k arbitrary: i pool) (simp_all add: Let_def)

lemma take_out_of_pool:
  assumes "j < length pool"
  shows "add_mset (pool ! j) (mset (butlast (pool[j := last pool]))) = mset pool"
proof -
  from assms have ne: "pool \<noteq> []" by auto
  then obtain xs l where pool: "pool = xs @ [l]" by (metis append_butlast_last_id)
  show ?thesis
  proof (cases "j = length xs")
    case True
    then show ?thesis using pool by simp
  next
    case False
    then have j: "j < length xs" using assms pool by simp
    then have "pool[j := last pool] = xs[j := l] @ [l]"
      using pool by (simp add: list_update_append)
    then have "mset (butlast (pool[j := last pool])) = mset (xs[j := l])" by simp
    also have "\<dots> = add_mset l (mset xs - {#xs ! j#})" using j by (simp add: mset_update)
    finally have "add_mset (pool ! j) (mset (butlast (pool[j := last pool]))) =
        add_mset (xs ! j) (add_mset l (mset xs - {#xs ! j#}))"
      using j pool by (simp add: nth_append)
    also have "\<dots> = add_mset l (mset xs)"
      using j by simp
    finally show ?thesis using pool by simp
  qed
qed

lemma mset_sample_pool:
  "k \<le> length pool \<Longrightarrow> mset (sample_pool draw i pool k) \<subseteq># mset pool"
proof (induction k arbitrary: i pool)
  case 0
  then show ?case by simp
next
  case (Suc k)
  let ?j = "draw i mod length pool"
  let ?pool' = "butlast (pool[?j := last pool])"
  have "0 < length pool" using Suc.prems by auto
  then have j: "?j < length pool" by (rule mod_less_divisor)
  have "k \<le> length ?pool'" using Suc.prems by simp
  then have "mset (sample_pool draw (Suc i) ?pool' k) \<subseteq># mset ?pool'" by (rule Suc.IH)
  then have "add_mset (pool ! ?j) (mset (sample_pool draw (Suc i) ?pool' k))
      \<subseteq># add_mset (pool ! ?j) (mset ?pool')" by simp
  then show ?case using take_out_of_pool[OF j] by (simp add: Let_def)
qed

lemma sample_pool_map:
  "k \<le> length pool \<Longrightarrow> sample_pool draw i (map f pool) k = map f (sample_pool draw i pool k)"
proof (induction k arbitrary: i pool)
  case 0
  then show ?case by simp
next
  case (Suc k)
  let ?j = "draw i mod length pool"
  have ne: "pool \<noteq> []" using Suc.prems by auto
  then have j: "?j < length pool" by simp
  have pool': "butlast ((map f pool)[?j := last (map f pool)]) =
      map f (butlast (pool[?j := last pool]))"
    using ne by (simp add: last_map map_update map_butlast)
  have "k \<le> length (butlast (pool[?j := last pool]))" using Suc.prems by simp
  then show ?case using Suc.IH[of "butlast (pool[?j := last pool])" "Suc i"] j pool'
    by (simp add: Let_def)
qed

lemma sample_pool_positions:
  "k \<le> length pool \<Longrightarrow>
   sample_pool draw i pool k = map (\<lambda>p. pool ! p) (sample_pool draw i [0..<length pool] k)"
  using sample_pool_map[of k "[0..<length pool]" draw i "\<lambda>p. pool ! p"]
  by (simp add: map_nth)

lemma distinct_sub_mset:
  assumes "mset xs \<subseteq># mset ys" and "distinct ys"
  shows "distinct xs \<and> set xs \<subseteq> set ys"
proof
  have le: "count (mset xs) a \<le> count (mset ys) a" for a
    using assms(1) by (rule mset_subset_eq_count)
  have one: "count (mset ys) a \<le> 1" for a
    using assms(2) by (simp add: distinct_count_atmost_1)
  show "distinct xs"
    unfolding distinct_count_atmost_1
  proof (intro allI)
    fix a
    show "count (mset xs) a = (if a \<in> set xs then 1 else 0)"
    proof (cases "a \<in> set xs")
      case True
      then have "1 \<le> count (mset xs) a" by (simp add: Suc_le_eq)
      then have "count (mset xs) a = 1" using le[of a] one[of a] by linarith
      then show ?thesis using True by simp
    next
      case False
      then show ?thesis by (simp add: count_eq_zero_iff)
    qed
  qed
  show "set xs \<subseteq> set ys" using assms(1) set_mset_mono by fastforce
qed

lemma distinct_sample_positions:
  assumes "k \<le> n"
  shows "distinct (sample_pool draw i [0..<n] k) \<and> set (sample_pool draw i [0..<n] k) \<subseteq> {..<n}"
proof -
  have "mset (sample_pool draw i [0..<n] k) \<subseteq># mset [0..<n]"
    using assms by (intro mset_sample_pool) simp
  then have "distinct (sample_pool draw i [0..<n] k)
      \<and> set (sample_pool draw i [0..<n] k) \<subseteq> set [0..<n]"
    by (rule distinct_sub_mset) simp
  then show ?thesis by auto
qed

lemma distinct_rest_of_pool:
  assumes "distinct pool" and "j < length pool"
  shows "distinct (butlast (pool[j := last pool]))
       \<and> set (butlast (pool[j := last pool])) = set pool - {pool ! j}"
proof -
  let ?rest = "butlast (pool[j := last pool])"
  have eq: "add_mset (pool ! j) (mset ?rest) = mset pool" using assms(2) by (rule take_out_of_pool)
  have "mset ?rest \<subseteq># add_mset (pool ! j) (mset ?rest)" by simp
  then have "mset ?rest \<subseteq># mset pool" unfolding eq .
  then have d: "distinct ?rest" using distinct_sub_mset assms(1) by blast
  have "count (mset pool) (pool ! j) = Suc (count (mset ?rest) (pool ! j))"
    using eq by (metis count_add_mset)
  moreover have "count (mset pool) (pool ! j) \<le> 1"
    using assms(1) by (simp add: distinct_count_atmost_1)
  ultimately have "count (mset ?rest) (pool ! j) = 0" by simp
  then have notin: "pool ! j \<notin> set ?rest" by (simp add: count_eq_zero_iff)
  have "set pool = insert (pool ! j) (set ?rest)"
    using eq by (metis set_mset_add_mset_insert set_mset_mset)
  then show ?thesis using d notin by auto
qed

lemma sample_pool_cong:
  fixes pool :: "'a list"
  shows "(\<And>t. i \<le> t \<Longrightarrow> d t = d' t) \<Longrightarrow> sample_pool d i pool k = sample_pool d' i pool k"
proof (induction k arbitrary: i pool)
  case 0
  then show ?case by simp
next
  case (Suc k)
  have "d i = d' i" using Suc.prems by simp
  moreover have "sample_pool d (Suc i) pool' k = sample_pool d' (Suc i) pool' k"
    for pool' :: "'a list"
    using Suc.prems by (intro Suc.IH) simp
  ultimately show ?case by (simp add: Let_def)
qed

lemma every_selection_is_a_sample:
  "distinct pool \<Longrightarrow> distinct ps \<Longrightarrow> set ps \<subseteq> set pool \<Longrightarrow>
   \<exists>draw. sample_pool draw i pool (length ps) = ps"
proof (induction ps arbitrary: pool i)
  case Nil
  then show ?case by simp
next
  case (Cons p ps)
  from Cons.prems(3) obtain j where j: "j < length pool" "pool ! j = p"
    by (auto simp: in_set_conv_nth)
  let ?rest = "butlast (pool[j := last pool])"
  have rest: "distinct ?rest" "set ?rest = set pool - {p}"
    using distinct_rest_of_pool[OF Cons.prems(1) j(1)] j(2) by simp_all
  have "set ps \<subseteq> set ?rest" using Cons.prems(2,3) rest(2) by auto
  then obtain draw where draw: "sample_pool draw (Suc i) ?rest (length ps) = ps"
    using Cons.IH[OF rest(1)] Cons.prems(2) by auto
  have "sample_pool (draw(i := j)) (Suc i) ?rest (length ps) =
      sample_pool draw (Suc i) ?rest (length ps)"
    by (rule sample_pool_cong) simp
  then have "sample_pool (draw(i := j)) i pool (length (p # ps)) = p # ps"
    using draw j by (simp add: Let_def)
  then show ?case by blast
qed

lemma sample_determines_draws:
  "distinct pool \<Longrightarrow> k \<le> length pool \<Longrightarrow>
   sample_pool d i pool k = sample_pool d' i pool k \<Longrightarrow> t < k \<Longrightarrow>
   d (i + t) mod (length pool - t) = d' (i + t) mod (length pool - t)"
proof (induction k arbitrary: i pool t)
  case 0
  then show ?case by simp
next
  case (Suc k)
  let ?j = "d i mod length pool" and ?j' = "d' i mod length pool"
  have ne: "0 < length pool" using Suc.prems(2) by auto
  then have j: "?j < length pool" "?j' < length pool" by simp_all
  from Suc.prems(3) have hd: "pool ! ?j = pool ! ?j'"
    and tl: "sample_pool d (Suc i) (butlast (pool[?j := last pool])) k =
             sample_pool d' (Suc i) (butlast (pool[?j' := last pool])) k"
    by (simp_all add: Let_def)
  have same: "?j = ?j'" using hd j Suc.prems(1) by (simp add: nth_eq_iff_index_eq)
  show ?case
  proof (cases t)
    case 0
    then show ?thesis using same by simp
  next
    case (Suc t')
    let ?rest = "butlast (pool[?j := last pool])"
    have "distinct ?rest" using distinct_rest_of_pool[OF Suc.prems(1) j(1)] by simp
    moreover have "k \<le> length ?rest" using Suc.prems(2) by simp
    moreover have "sample_pool d (Suc i) ?rest k = sample_pool d' (Suc i) ?rest k"
      using tl same by simp
    moreover have "t' < k" using Suc.prems(4) Suc by simp
    ultimately have "d (Suc i + t') mod (length ?rest - t') = d' (Suc i + t') mod (length ?rest - t')"
      by (rule Suc.IH)
    then show ?thesis using Suc by simp
  qed
qed

lemma sample_pool_reduced_cong:
  "k \<le> length pool \<Longrightarrow>
   (\<forall>s<k. d (i + s) mod (length pool - s) = d' (i + s) mod (length pool - s)) \<Longrightarrow>
   sample_pool d i pool k = sample_pool d' i pool k"
proof (induction k arbitrary: i pool)
  case 0
  then show ?case by simp
next
  case (Suc k)
  have first: "d i mod length pool = d' i mod length pool"
    using Suc.prems(2)[rule_format, of 0] by simp
  let ?rest = "butlast (pool[d i mod length pool := last pool])"
  have len: "length ?rest = length pool - 1" by simp
  have "k \<le> length ?rest" using Suc.prems(1) by simp
  moreover have "\<forall>s<k. d (Suc i + s) mod (length ?rest - s) = d' (Suc i + s) mod (length ?rest - s)"
  proof (intro allI impI)
    fix s assume "s < k"
    then show "d (Suc i + s) mod (length ?rest - s) = d' (Suc i + s) mod (length ?rest - s)"
      using Suc.prems(2)[rule_format, of "Suc s"] by (simp add: len)
  qed
  ultimately have "sample_pool d (Suc i) ?rest k = sample_pool d' (Suc i) ?rest k"
    by (rule Suc.IH)
  then show ?case using first by (simp add: Let_def)
qed

section \<open>Sampling with a set of selected positions\<close>

lemma ceil_log4_least: "x \<le> 4 ^ ceil_log4 x \<and> (\<forall>e. x \<le> 4 ^ e \<longrightarrow> ceil_log4 x \<le> e)"
proof (induction x rule: ceil_log4.induct)
  case (1 x)
  show ?case
  proof (cases "x \<le> 1")
    case True
    then show ?thesis by (simp add: ceil_log4.simps)
  next
    case False
    let ?y = "(x + 3) div 4"
    have IH: "?y \<le> 4 ^ ceil_log4 ?y" "\<And>e. ?y \<le> 4 ^ e \<Longrightarrow> ceil_log4 ?y \<le> e"
      using 1 False by auto
    have up: "x \<le> 4 ^ Suc (ceil_log4 ?y)" using IH(1) by simp
    have low: "Suc (ceil_log4 ?y) \<le> e" if "x \<le> 4 ^ e" for e
    proof (cases e)
      case 0
      then show ?thesis using that False by simp
    next
      case (Suc e')
      then have "x \<le> 4 * 4 ^ e'" using that by simp
      then have "?y \<le> 4 ^ e'" by simp
      then show ?thesis using IH(2) Suc by simp
    qed
    show ?thesis using up low False by (simp add: ceil_log4.simps[of x])
  qed
qed

lemma reselect_new: "j \<notin> sel \<Longrightarrow> reselect draw n sel t j = Some (j, t)"
  by (simp add: reselect.simps)

lemma reselect_again:
  "j \<in> sel \<Longrightarrow> reselect draw n sel t j = reselect draw n sel (Suc t) (draw t mod n)"
  by (subst reselect.simps) simp

lemma reselect_finds:
  "j \<in> sel \<Longrightarrow> (\<forall>s. t \<le> s \<and> s < t + d \<longrightarrow> draw s mod n \<in> sel) \<Longrightarrow>
   draw (t + d) mod n \<notin> sel \<Longrightarrow>
   reselect draw n sel t j = Some (draw (t + d) mod n, Suc (t + d))"
proof (induction d arbitrary: t j)
  case 0
  then show ?case by (simp add: reselect_again reselect_new)
next
  case (Suc d)
  have in_sel: "draw t mod n \<in> sel" using Suc.prems(2) by simp
  have "reselect draw n sel (Suc t) (draw t mod n) =
      Some (draw (Suc t + d) mod n, Suc (Suc t + d))"
    using Suc.prems by (intro Suc.IH in_sel) auto
  then show ?case using Suc.prems(1) by (simp add: reselect_again)
qed

lemma reselect_found_pair:
  assumes "reselect draw n sel t j = Some y"
  shows "(j \<notin> sel \<and> y = (j, t))
   \<or> (j \<in> sel \<and> (\<exists>d. y = (draw (t + d) mod n, Suc (t + d)) \<and> draw (t + d) mod n \<notin> sel
         \<and> (\<forall>s. t \<le> s \<and> s < t + d \<longrightarrow> draw s mod n \<in> sel)))"
proof -
  let ?P = "\<lambda>(draw :: nat \<Rightarrow> nat) (n :: nat) (sel :: nat set) (t :: nat) (j :: nat) (y :: nat \<times> nat).
     (j \<notin> sel \<and> y = (j, t))
   \<or> (j \<in> sel \<and> (\<exists>d. y = (draw (t + d) mod n, Suc (t + d)) \<and> draw (t + d) mod n \<notin> sel
         \<and> (\<forall>s. t \<le> s \<and> s < t + d \<longrightarrow> draw s mod n \<in> sel)))"
  have "?P draw n sel t j y"
  proof (rule reselect.raw_induct[where P = ?P, OF _ assms])
    fix again :: "(nat \<Rightarrow> nat) \<Rightarrow> nat \<Rightarrow> nat set \<Rightarrow> nat \<Rightarrow> nat \<Rightarrow> (nat \<times> nat) option"
    fix draw n sel t j y
    assume IH: "\<And>draw n sel t j y. again draw n sel t j = Some y \<Longrightarrow> ?P draw n sel t j y"
      and eq: "(if j \<in> sel then again draw n sel (Suc t) (draw t mod n) else Some (j, t)) = Some y"
    show "?P draw n sel t j y"
    proof (cases "j \<in> sel")
      case False
      then show ?thesis using eq by simp
    next
      case True
      then have call: "again draw n sel (Suc t) (draw t mod n) = Some y" using eq by simp
      from IH[OF call] show ?thesis
      proof
        assume "draw t mod n \<notin> sel \<and> y = (draw t mod n, Suc t)"
        then have "y = (draw (t + 0) mod n, Suc (t + 0)) \<and> draw (t + 0) mod n \<notin> sel
            \<and> (\<forall>s. t \<le> s \<and> s < t + 0 \<longrightarrow> draw s mod n \<in> sel)" by auto
        then show ?thesis using True by blast
      next
        assume "draw t mod n \<in> sel \<and> (\<exists>d. y = (draw (Suc t + d) mod n, Suc (Suc t + d))
            \<and> draw (Suc t + d) mod n \<notin> sel
            \<and> (\<forall>s. Suc t \<le> s \<and> s < Suc t + d \<longrightarrow> draw s mod n \<in> sel))"
        then obtain d where first: "draw t mod n \<in> sel"
          and y: "y = (draw (Suc t + d) mod n, Suc (Suc t + d))"
          and new: "draw (Suc t + d) mod n \<notin> sel"
          and old: "\<forall>s. Suc t \<le> s \<and> s < Suc t + d \<longrightarrow> draw s mod n \<in> sel"
          by blast
        have "\<forall>s. t \<le> s \<and> s < t + Suc d \<longrightarrow> draw s mod n \<in> sel"
        proof (intro allI impI)
          fix s assume s: "t \<le> s \<and> s < t + Suc d"
          show "draw s mod n \<in> sel"
          proof (cases "s = t")
            case True
            then show ?thesis using first by simp
          next
            case False
            then show ?thesis using s old by simp
          qed
        qed
        then have "y = (draw (t + Suc d) mod n, Suc (t + Suc d)) \<and> draw (t + Suc d) mod n \<notin> sel
            \<and> (\<forall>s. t \<le> s \<and> s < t + Suc d \<longrightarrow> draw s mod n \<in> sel)"
          using y new by simp
        then show ?thesis using True by blast
      qed
    qed
  qed
  then show ?thesis .
qed

text \<open>The first draw of a step and its redraws together.\<close>

lemma select_iff:
  "reselect draw n sel (Suc t) (draw t mod n) = Some (p, t') \<longleftrightarrow>
   (\<exists>d. t' = Suc (t + d) \<and> p = draw (t + d) mod n \<and> p \<notin> sel
      \<and> (\<forall>s. t \<le> s \<and> s < t + d \<longrightarrow> draw s mod n \<in> sel))"
proof
  assume "reselect draw n sel (Suc t) (draw t mod n) = Some (p, t')"
  from reselect_found_pair[OF this] show "\<exists>d. t' = Suc (t + d) \<and> p = draw (t + d) mod n \<and> p \<notin> sel
      \<and> (\<forall>s. t \<le> s \<and> s < t + d \<longrightarrow> draw s mod n \<in> sel)"
  proof
    assume "draw t mod n \<notin> sel \<and> (p, t') = (draw t mod n, Suc t)"
    then have "t' = Suc (t + 0) \<and> p = draw (t + 0) mod n \<and> p \<notin> sel
      \<and> (\<forall>s. t \<le> s \<and> s < t + 0 \<longrightarrow> draw s mod n \<in> sel)" by auto
    then show ?thesis by blast
  next
    assume "draw t mod n \<in> sel \<and> (\<exists>d. (p, t') = (draw (Suc t + d) mod n, Suc (Suc t + d))
        \<and> draw (Suc t + d) mod n \<notin> sel
        \<and> (\<forall>s. Suc t \<le> s \<and> s < Suc t + d \<longrightarrow> draw s mod n \<in> sel))"
    then obtain d where first: "draw t mod n \<in> sel"
      and y: "t' = Suc (Suc t + d)" "p = draw (Suc t + d) mod n"
      and new: "draw (Suc t + d) mod n \<notin> sel"
      and old: "\<forall>s. Suc t \<le> s \<and> s < Suc t + d \<longrightarrow> draw s mod n \<in> sel"
      by auto
    have "\<forall>s. t \<le> s \<and> s < t + Suc d \<longrightarrow> draw s mod n \<in> sel"
    proof (intro allI impI)
      fix s assume s: "t \<le> s \<and> s < t + Suc d"
      show "draw s mod n \<in> sel"
      proof (cases "s = t")
        case True
        then show ?thesis using first by simp
      next
        case False
        then show ?thesis using s old by simp
      qed
    qed
    then have "t' = Suc (t + Suc d) \<and> p = draw (t + Suc d) mod n \<and> p \<notin> sel
      \<and> (\<forall>s. t \<le> s \<and> s < t + Suc d \<longrightarrow> draw s mod n \<in> sel)"
      using y new by simp
    then show ?thesis by blast
  qed
next
  assume "\<exists>d. t' = Suc (t + d) \<and> p = draw (t + d) mod n \<and> p \<notin> sel
      \<and> (\<forall>s. t \<le> s \<and> s < t + d \<longrightarrow> draw s mod n \<in> sel)"
  then obtain d where t': "t' = Suc (t + d)" and p: "p = draw (t + d) mod n" and new: "p \<notin> sel"
    and old: "\<forall>s. t \<le> s \<and> s < t + d \<longrightarrow> draw s mod n \<in> sel"
    by blast
  show "reselect draw n sel (Suc t) (draw t mod n) = Some (p, t')"
  proof (cases d)
    case 0
    then show ?thesis using t' p new by (simp add: reselect_new)
  next
    case (Suc d')
    have "draw t mod n \<in> sel" using old Suc by simp
    moreover have "\<forall>s. Suc t \<le> s \<and> s < Suc t + d' \<longrightarrow> draw s mod n \<in> sel" using old Suc by simp
    moreover have "draw (Suc t + d') mod n \<notin> sel" using new p Suc by simp
    ultimately have "reselect draw n sel (Suc t) (draw t mod n) =
        Some (draw (Suc t + d') mod n, Suc (Suc t + d'))"
      by (rule reselect_finds)
    then show ?thesis using t' p Suc by simp
  qed
qed


lemma select_below:
  "0 < n \<Longrightarrow> reselect draw n sel (Suc t) (draw t mod n) = Some (p, t') \<Longrightarrow> p < n"
  by (auto simp: select_iff)

lemma sample_selected_positions:
  "0 < length pop \<Longrightarrow>
   sample_selected draw pop sel t k =
     map_option (map (\<lambda>p. pop ! p)) (sample_selected draw [0..<length pop] sel t k)"
proof (induction k arbitrary: sel t)
  case 0
  then show ?case by simp
next
  case (Suc k)
  show ?case
  proof (cases "reselect draw (length pop) sel (Suc t) (draw t mod length pop)")
    case None
    then show ?thesis by simp
  next
    case (Some y)
    obtain j t' where y: "y = (j, t')" by (cases y)
    have "j < length pop" using select_below[OF Suc.prems] Some y by blast
    then show ?thesis using Some y Suc.IH[OF Suc.prems, of "insert j sel" t']
      by (simp add: option.map_comp comp_def)
  qed
qed

lemma sample_selected_props:
  "0 < n \<Longrightarrow> sample_selected draw [0..<n] sel t k = Some ps \<Longrightarrow>
   length ps = k \<and> distinct ps \<and> set ps \<inter> sel = {} \<and> set ps \<subseteq> {..<n}"
proof (induction k arbitrary: sel t ps)
  case 0
  then show ?case by simp
next
  case (Suc k)
  from Suc.prems(2) obtain j t' rest
    where sel: "reselect draw n sel (Suc t) (draw t mod n) = Some (j, t')"
      and rest: "sample_selected draw [0..<n] (insert j sel) t' k = Some rest"
      and ps: "ps = [0..<n] ! j # rest"
    by (auto split: option.splits)
  have j: "j < n" "j \<notin> sel" using sel Suc.prems(1) by (auto simp: select_iff)
  have "length rest = k \<and> distinct rest \<and> set rest \<inter> insert j sel = {} \<and> set rest \<subseteq> {..<n}"
    using Suc.IH[OF Suc.prems(1) rest] .
  then show ?case using ps j by auto
qed

lemma sample_selected_chosen:
  "0 < n \<Longrightarrow> distinct ps \<Longrightarrow> set ps \<subseteq> {..<n} \<Longrightarrow> set ps \<inter> sel = {} \<Longrightarrow>
   (\<forall>i<length ps. draw (t + i) mod n = ps ! i) \<Longrightarrow>
   sample_selected draw [0..<n] sel t (length ps) = Some ps"
proof (induction ps arbitrary: sel t)
  case Nil
  then show ?case by simp
next
  case (Cons p ps)
  have first: "draw t mod n = p" using Cons.prems(5) by auto
  have p: "p \<notin> sel" "p < n" using Cons.prems(3,4) by auto
  have sel: "reselect draw n sel (Suc t) (draw t mod n) = Some (p, Suc t)"
    using first p by (simp add: reselect_new)
  have "\<forall>i<length ps. draw (Suc t + i) mod n = ps ! i"
  proof (intro allI impI)
    fix i assume "i < length ps"
    then show "draw (Suc t + i) mod n = ps ! i" using Cons.prems(5)[rule_format, of "Suc i"] by simp
  qed
  moreover have "set ps \<inter> insert p sel = {}" using Cons.prems(2,4) by auto
  ultimately have "sample_selected draw [0..<n] (insert p sel) (Suc t) (length ps) = Some ps"
    using Cons.prems(1,2,3) by (intro Cons.IH) auto
  then show ?case using sel p by simp
qed

lemma sample_selected_permuted:
  "0 < n \<Longrightarrow> inj_on \<pi> {..<n} \<Longrightarrow> \<pi> ` {..<n} \<subseteq> {..<n} \<Longrightarrow> sel \<subseteq> {..<n} \<Longrightarrow>
   (\<forall>s. draw' s mod n = \<pi> (draw s mod n)) \<Longrightarrow>
   sample_selected draw [0..<n] sel t k = Some ps \<Longrightarrow>
   sample_selected draw' [0..<n] (\<pi> ` sel) t k = Some (map \<pi> ps)"
proof (induction k arbitrary: sel t ps)
  case 0
  then show ?case by simp
next
  case (Suc k)
  note n = Suc.prems(1) and inj = Suc.prems(2) and into = Suc.prems(3) and sub = Suc.prems(4)
    and draws = Suc.prems(5)
  from Suc.prems(6) obtain j t' rest
    where sel: "reselect draw n sel (Suc t) (draw t mod n) = Some (j, t')"
      and rest: "sample_selected draw [0..<n] (insert j sel) t' k = Some rest"
      and ps: "ps = [0..<n] ! j # rest"
    by (auto split: option.splits)
  have below: "draw s mod n < n" for s using n by simp
  have mem: "\<pi> (draw s mod n) \<in> \<pi> ` sel \<longleftrightarrow> draw s mod n \<in> sel" for s
    using inj sub below[of s] by (auto simp: inj_on_def)
  from sel obtain d where d: "t' = Suc (t + d)" "j = draw (t + d) mod n" "j \<notin> sel"
      "\<forall>s. t \<le> s \<and> s < t + d \<longrightarrow> draw s mod n \<in> sel"
    by (auto simp: select_iff)
  have j: "j < n" using d(2) n by simp
  have "\<pi> j = draw' (t + d) mod n \<and> \<pi> j \<notin> \<pi> ` sel
      \<and> (\<forall>s. t \<le> s \<and> s < t + d \<longrightarrow> draw' s mod n \<in> \<pi> ` sel)"
    using d mem draws by auto
  then have sel': "reselect draw' n (\<pi> ` sel) (Suc t) (draw' t mod n) = Some (\<pi> j, t')"
    using d(1) by (auto simp: select_iff)
  have "sample_selected draw' [0..<n] (\<pi> ` insert j sel) t' k = Some (map \<pi> rest)"
    using n inj into _ draws rest by (rule Suc.IH) (use sub j in auto)
  moreover have "\<pi> j < n" using into j by auto
  ultimately show ?case using sel' ps j by simp
qed


lemma positions_sub_mset:
  assumes "distinct ps" and "set ps \<subseteq> {..<length xs}"
  shows "mset (map (\<lambda>p. xs ! p) ps) \<subseteq># mset xs"
proof -
  have "mset ps = mset_set (set ps)" using assms(1) by (simp add: mset_set_set)
  also have "\<dots> \<subseteq># mset_set {..<length xs}"
    using assms(2) by (intro subset_imp_msubset_mset_set) auto
  also have "\<dots> = mset [0..<length xs]"
    by (metis atLeast_upt mset_set_set distinct_upt)
  finally have "image_mset (\<lambda>p. xs ! p) (mset ps) \<subseteq># image_mset (\<lambda>p. xs ! p) (mset [0..<length xs])"
    by (rule image_mset_subseteq_mono)
  moreover have "image_mset (\<lambda>p. xs ! p) (mset ps) = mset (map (\<lambda>p. xs ! p) ps)"
    by (rule mset_map[symmetric])
  moreover have "image_mset (\<lambda>p. xs ! p) (mset [0..<length xs]) = mset xs"
    using mset_map[of "\<lambda>p. xs ! p" "[0..<length xs]"] by (simp only: map_nth)
  ultimately show ?thesis by (simp only:)
qed

lemma reduced_draws_finite:
  fixes draw :: "nat \<Rightarrow> nat" and n :: nat
  assumes n: "0 < n"
  shows "finite ((\<lambda>s. draw s mod n) ` {u..} - A)"
proof -
  have "(\<lambda>s. draw s mod n) ` {u..} \<subseteq> {..<n}" using n by auto
  then have "finite ((\<lambda>s. draw s mod n) ` {u..})" using finite_subset finite_lessThan by blast
  then show ?thesis by (rule finite_Diff)
qed

lemma first_new_draw:
  fixes draw :: "nat \<Rightarrow> nat" and n t :: nat
  assumes "\<exists>s\<ge>t. draw s mod n \<notin> sel"
  shows "\<exists>s0\<ge>t. draw s0 mod n \<notin> sel \<and> (\<forall>s. t \<le> s \<and> s < s0 \<longrightarrow> draw s mod n \<in> sel)"
proof -
  let ?P = "\<lambda>s. t \<le> s \<and> draw s mod n \<notin> sel"
  have ex: "\<exists>s. ?P s" using assms by blast
  have s0: "?P (LEAST s. ?P s)" by (rule LeastI_ex[OF ex])
  have "draw s mod n \<in> sel" if "t \<le> s" "s < (LEAST s. ?P s)" for s
  proof -
    have "\<not> ?P s" using that(2) by (rule not_less_Least)
    then show ?thesis using that(1) by simp
  qed
  then show ?thesis using s0 by blast
qed

lemma select_first_new:
  assumes "t \<le> s0" and "draw s0 mod n \<notin> sel"
    and "\<forall>s. t \<le> s \<and> s < s0 \<longrightarrow> draw s mod n \<in> sel"
  shows "reselect draw n sel (Suc t) (draw t mod n) = Some (draw s0 mod n, Suc s0)"
proof -
  have td: "t + (s0 - t) = s0" using assms(1) by simp
  have "Suc s0 = Suc (t + (s0 - t)) \<and> draw s0 mod n = draw (t + (s0 - t)) mod n
      \<and> draw s0 mod n \<notin> sel
      \<and> (\<forall>s. t \<le> s \<and> s < t + (s0 - t) \<longrightarrow> draw s mod n \<in> sel)"
    unfolding td using assms(2,3) by simp
  then have "\<exists>d. Suc s0 = Suc (t + d) \<and> draw s0 mod n = draw (t + d) mod n
      \<and> draw s0 mod n \<notin> sel
      \<and> (\<forall>s. t \<le> s \<and> s < t + d \<longrightarrow> draw s mod n \<in> sel)"
    by (rule exI)
  then show ?thesis by (simp only: select_iff)
qed

lemma select_none:
  assumes "\<not> (\<exists>s\<ge>t. draw s mod n \<notin> sel)"
  shows "reselect draw n sel (Suc t) (draw t mod n) = None"
proof (cases "reselect draw n sel (Suc t) (draw t mod n)")
  case None
  then show ?thesis .
next
  case (Some y)
  obtain p t' where "y = (p, t')" by (cases y)
  then have "reselect draw n sel (Suc t) (draw t mod n) = Some (p, t')" using Some by simp
  then obtain d where "p = draw (t + d) mod n" "p \<notin> sel" unfolding select_iff by blast
  then have "t \<le> t + d \<and> draw (t + d) mod n \<notin> sel" by simp
  then show ?thesis using assms by blast
qed

lemma new_draws_split:
  fixes draw :: "nat \<Rightarrow> nat" and n t :: nat
  assumes "t \<le> s0" and "draw s0 mod n \<notin> sel"
    and "\<forall>s. t \<le> s \<and> s < s0 \<longrightarrow> draw s mod n \<in> sel"
  shows "(\<lambda>s. draw s mod n) ` {t..} - sel =
         insert (draw s0 mod n) ((\<lambda>s. draw s mod n) ` {Suc s0..} - insert (draw s0 mod n) sel)"
proof (intro set_eqI iffI)
  fix v assume "v \<in> (\<lambda>s. draw s mod n) ` {t..} - sel"
  then obtain s where s: "t \<le> s" "v = draw s mod n" "v \<notin> sel" by auto
  then have "\<not> s < s0" using assms(3) by blast
  then have "s = s0 \<or> Suc s0 \<le> s" by auto
  then show "v \<in> insert (draw s0 mod n) ((\<lambda>s. draw s mod n) ` {Suc s0..} - insert (draw s0 mod n) sel)"
  proof
    assume "s = s0"
    then show ?thesis using s(2) by simp
  next
    assume "Suc s0 \<le> s"
    then have "v \<in> (\<lambda>s. draw s mod n) ` {Suc s0..}" using s(2) by simp
    then show ?thesis using s(3) by simp
  qed
next
  fix v assume v: "v \<in> insert (draw s0 mod n) ((\<lambda>s. draw s mod n) ` {Suc s0..} - insert (draw s0 mod n) sel)"
  show "v \<in> (\<lambda>s. draw s mod n) ` {t..} - sel"
  proof (cases "v = draw s0 mod n")
    case True
    then show ?thesis using assms(1,2) by simp
  next
    case False
    then obtain s where s: "Suc s0 \<le> s" "v = draw s mod n" "v \<notin> sel" using v by auto
    then have "t \<le> s" using assms(1) by simp
    then have "v \<in> (\<lambda>s. draw s mod n) ` {t..}" using s(2) by simp
    then show ?thesis using s(3) by simp
  qed
qed

lemma sample_selected_returns:
  assumes n: "0 < n"
  shows "(\<exists>ps. sample_selected draw [0..<n] sel t k = Some ps) \<longleftrightarrow>
         k \<le> card ((\<lambda>s. draw s mod n) ` {t..} - sel)"
proof (induction k arbitrary: sel t)
  case 0
  then show ?case by simp
next
  case (Suc k)
  show ?case
  proof (cases "\<exists>s\<ge>t. draw s mod n \<notin> sel")
    case True
    from first_new_draw[OF True] obtain s0 where s0: "t \<le> s0" "draw s0 mod n \<notin> sel"
      "\<forall>s. t \<le> s \<and> s < s0 \<longrightarrow> draw s mod n \<in> sel" by blast
    let ?rest = "(\<lambda>s. draw s mod n) ` {Suc s0..} - insert (draw s0 mod n) sel"
    have sel: "reselect draw n sel (Suc t) (draw t mod n) = Some (draw s0 mod n, Suc s0)"
      using s0 by (rule select_first_new)
    have "finite ?rest" using n by (rule reduced_draws_finite)
    moreover have "draw s0 mod n \<notin> ?rest" by simp
    ultimately have "card (insert (draw s0 mod n) ?rest) = Suc (card ?rest)"
      by (rule card_insert_disjoint)
    then have card: "card ((\<lambda>s. draw s mod n) ` {t..} - sel) = Suc (card ?rest)"
      using new_draws_split[OF s0] by (simp only:)
    have "(\<exists>ps. sample_selected draw [0..<n] sel t (Suc k) = Some ps) \<longleftrightarrow>
        (\<exists>ps. sample_selected draw [0..<n] (insert (draw s0 mod n) sel) (Suc s0) k = Some ps)"
      using sel by simp
    also have "\<dots> \<longleftrightarrow> k \<le> card ?rest" by (rule Suc.IH)
    finally show ?thesis unfolding card by simp
  next
    case False
    then have "(\<lambda>s. draw s mod n) ` {t..} - sel = {}" by auto
    then have "card ((\<lambda>s. draw s mod n) ` {t..} - sel) = 0" by (simp only: card.empty)
    moreover have "sample_selected draw [0..<n] sel t (Suc k) = None"
      using select_none[OF False] by simp
    ultimately show ?thesis by simp
  qed
qed

section \<open>The downsampling of the focused abduction\<close>

lemma focused_unchanged:
  assumes "call_llm (chat_abduction b) (FocusedMessages c a u (Some k)) m
             AbductionHypothesesList_schema default_max_retries = Inr answer"
    and "int (length answer) \<le> k"
  shows "query_abduction_focused b draw c (Some a) (Some u) m (Some k) i = Some (Inr answer)"
  using assms
  by (simp add: query_abduction_focused_def copy_list_def get_hypotheses_def)

lemma focused_pool:
  assumes "call_llm (chat_abduction b) (FocusedMessages c a u (Some k)) m
             AbductionHypothesesList_schema default_max_retries = Inr answer"
    and "0 \<le> k" and "k < int (length answer)" and "length answer \<le> setsize (nat k)"
  shows "query_abduction_focused b draw c (Some a) (Some u) m (Some k) i =
         Some (Inr (sample_pool draw 0 answer (nat k)))"
  using assms
  by (simp add: query_abduction_focused_def copy_list_def get_hypotheses_def random_sample_def)

lemma focused_selected:
  assumes "call_llm (chat_abduction b) (FocusedMessages c a u (Some k)) m
             AbductionHypothesesList_schema default_max_retries = Inr answer"
    and "0 \<le> k" and "k < int (length answer)" and "setsize (nat k) < length answer"
  shows "query_abduction_focused b draw c (Some a) (Some u) m (Some k) i =
         map_option (\<lambda>ps. Inr (map (\<lambda>p. answer ! p) ps))
           (sample_selected draw [0..<length answer] {} 0 (nat k))"
proof -
  have "0 < length answer" using assms(2,3) by (cases answer) simp_all
  then have "sample_selected draw answer {} 0 (nat k) =
      map_option (map (\<lambda>p. answer ! p)) (sample_selected draw [0..<length answer] {} 0 (nat k))"
    by (rule sample_selected_positions)
  then show ?thesis using assms
    by (simp add: query_abduction_focused_def copy_list_def get_hypotheses_def random_sample_def
        option.map_comp comp_def)
qed

lemma positions_of_output:
  assumes "distinct answer" and "set qs \<subseteq> {..<length answer}" and "set ps \<subseteq> {..<length answer}"
    and "map (\<lambda>p. answer ! p) qs = map (\<lambda>p. answer ! p) ps"
  shows "qs = ps"
proof -
  have "inj_on (\<lambda>p. answer ! p) {..<length answer}"
    using assms(1) by (intro inj_on_nth) simp_all
  then have "inj_on (\<lambda>p. answer ! p) (set qs \<union> set ps)"
    by (rule inj_on_subset) (use assms(2,3) in auto)
  then show ?thesis using assms(4) by (simp add: inj_on_map_eq_map)
qed

text \<open>
  Claim C6. Let the backend answer the focused abduction with \<open>M\<close> hypotheses and let
  \<open>top_k = k \<ge> 0\<close>. If \<open>M \<le> k\<close>, the phase returns the answer unchanged. If \<open>M > k\<close>, it
  returns the hypotheses at \<open>k\<close> distinct positions of the answer, so each of them is in the
  answer and none is taken more often than it is there. It does so for every random source
  when \<open>M\<close> is at most \<^verbatim>\<open>setsize\<close>, and otherwise exactly when the source draws \<open>k\<close> different
  positions, without which the library draws for ever. The selection is uniform and not a
  truncation. Every list of \<open>k\<close> distinct positions is returned for some source. For \<open>M\<close> at
  most \<^verbatim>\<open>setsize\<close>, and hypotheses that differ, two sources give the same output exactly
  when they agree on the first \<open>k\<close> draws, draw \<open>t\<close> reduced modulo \<open>M - t\<close>: the outputs
  correspond one to one to the reduced draws, so draws that are uniform make every selection
  equally likely. For larger \<open>M\<close> the phase treats all positions alike: when a permutation
  \<open>\<pi>\<close> of the positions is applied to every draw, it is applied to the positions returned;
  a distribution of outputs that every permutation leaves unchanged is the uniform one.
  The node writes the output of the phase to \<^verbatim>\<open>abduction_focused\<close> as it is.
\<close>

theorem focused_abduction_downsampling:
  assumes "call_llm (chat_abduction b) (FocusedMessages c a u (Some k)) m
             AbductionHypothesesList_schema default_max_retries = Inr answer"
    and "0 \<le> k"
  shows "(int (length answer) \<le> k \<longrightarrow>
            query_abduction_focused b draw c (Some a) (Some u) m (Some k) i = Some (Inr answer))
       \<and> (k < int (length answer) \<and> length answer \<le> setsize (nat k) \<longrightarrow>
            (\<exists>positions.
                query_abduction_focused b draw c (Some a) (Some u) m (Some k) i
                  = Some (Inr (map (\<lambda>p. answer ! p) positions))
              \<and> int (length positions) = k \<and> distinct positions
              \<and> set positions \<subseteq> {..<length answer}
              \<and> mset (map (\<lambda>p. answer ! p) positions) \<subseteq># mset answer))
       \<and> (k < int (length answer) \<and> setsize (nat k) < length answer
            \<and> nat k \<le> card (range (\<lambda>t. draw t mod length answer)) \<longrightarrow>
            (\<exists>positions.
                query_abduction_focused b draw c (Some a) (Some u) m (Some k) i
                  = Some (Inr (map (\<lambda>p. answer ! p) positions))
              \<and> int (length positions) = k \<and> distinct positions
              \<and> set positions \<subseteq> {..<length answer}
              \<and> mset (map (\<lambda>p. answer ! p) positions) \<subseteq># mset answer))
       \<and> (k < int (length answer) \<and> setsize (nat k) < length answer
            \<and> card (range (\<lambda>t. draw t mod length answer)) < nat k \<longrightarrow>
            query_abduction_focused b draw c (Some a) (Some u) m (Some k) i = None)
       \<and> (k < int (length answer) \<and> int (length ps) = k \<and> distinct ps
            \<and> set ps \<subseteq> {..<length answer} \<longrightarrow>
            (\<exists>draw'. query_abduction_focused b draw' c (Some a) (Some u) m (Some k) i
                       = Some (Inr (map (\<lambda>p. answer ! p) ps))))
       \<and> (distinct answer \<and> k < int (length answer) \<and> length answer \<le> setsize (nat k) \<longrightarrow>
            (query_abduction_focused b draw c (Some a) (Some u) m (Some k) i
               = query_abduction_focused b draw'' c (Some a) (Some u) m (Some k) i
             \<longleftrightarrow> (\<forall>t. t < nat k \<longrightarrow>
                    draw t mod (length answer - t) = draw'' t mod (length answer - t))))
       \<and> (distinct answer \<and> k < int (length answer) \<and> setsize (nat k) < length answer
            \<and> inj_on \<pi> {..<length answer} \<and> \<pi> ` {..<length answer} \<subseteq> {..<length answer}
            \<and> (\<forall>t. draw'' t mod length answer = \<pi> (draw t mod length answer))
            \<and> set ps \<subseteq> {..<length answer}
            \<and> query_abduction_focused b draw c (Some a) (Some u) m (Some k) i
                 = Some (Inr (map (\<lambda>p. answer ! p) ps)) \<longrightarrow>
            query_abduction_focused b draw'' c (Some a) (Some u) m (Some k) i
              = Some (Inr (map (\<lambda>p. answer ! p) (map \<pi> ps))))
       \<and> (case_text s = Some c \<and> model s = Some m \<and> iter s = Some i
            \<and> abstraction s = Some (Some a) \<and> abduction_unfocused s = Some u
            \<and> top_k s = Some k
            \<and> query_abduction_focused b draw c (Some a) (Some u) m (Some k) i
                 = Some (Inr output) \<longrightarrow>
            n_abduction_focused (imported_phases b draw) s
              = Inr (empty_dict\<lparr>abduction_focused := Some output\<rparr>))"
proof (intro conjI impI)
  assume "case_text s = Some c \<and> model s = Some m \<and> iter s = Some i
            \<and> abstraction s = Some (Some a) \<and> abduction_unfocused s = Some u
            \<and> top_k s = Some k
            \<and> query_abduction_focused b draw c (Some a) (Some u) m (Some k) i
                 = Some (Inr output)"
  then show "n_abduction_focused (imported_phases b draw) s
              = Inr (empty_dict\<lparr>abduction_focused := Some output\<rparr>)"
    by (simp add: n_abduction_focused_def imported_phases_def getitem_def)
next
  assume "int (length answer) \<le> k"
  with assms(1) show "query_abduction_focused b draw c (Some a) (Some u) m (Some k) i
      = Some (Inr answer)"
    by (rule focused_unchanged)
next
  assume small: "k < int (length answer) \<and> length answer \<le> setsize (nat k)"
  then have "k < int (length answer)" by (rule conjunct1)
  then have le: "nat k \<le> length answer" by simp
  let ?positions = "sample_pool draw 0 [0..<length answer] (nat k)"
  have "query_abduction_focused b draw c (Some a) (Some u) m (Some k) i =
      Some (Inr (sample_pool draw 0 answer (nat k)))"
    using assms small by (intro focused_pool) simp_all
  then have "query_abduction_focused b draw c (Some a) (Some u) m (Some k) i =
      Some (Inr (map (\<lambda>p. answer ! p) ?positions))"
    using sample_pool_positions[OF le] by simp
  moreover have "int (length ?positions) = k"
    using assms(2) by (simp add: length_sample_pool)
  moreover have "distinct ?positions \<and> set ?positions \<subseteq> {..<length answer}"
    using le by (rule distinct_sample_positions)
  moreover have "mset (map (\<lambda>p. answer ! p) ?positions) \<subseteq># mset answer"
    using mset_sample_pool[OF le, of draw 0] sample_pool_positions[OF le, of draw 0] by simp
  ultimately show "\<exists>positions.
                query_abduction_focused b draw c (Some a) (Some u) m (Some k) i
                  = Some (Inr (map (\<lambda>p. answer ! p) positions))
              \<and> int (length positions) = k \<and> distinct positions
              \<and> set positions \<subseteq> {..<length answer}
              \<and> mset (map (\<lambda>p. answer ! p) positions) \<subseteq># mset answer"
    by blast
next
  assume large: "k < int (length answer) \<and> setsize (nat k) < length answer
      \<and> nat k \<le> card (range (\<lambda>t. draw t mod length answer))"
  then have "k < int (length answer)" by simp
  then have pos: "0 < length answer" using assms(2) by (cases answer) simp_all
  have "nat k \<le> card ((\<lambda>s. draw s mod length answer) ` {0..} - {})"
    using large by simp
  then obtain positions where
    positions: "sample_selected draw [0..<length answer] {} 0 (nat k) = Some positions"
    using sample_selected_returns[OF pos, of draw "{}" 0 "nat k"] by blast
  have props: "length positions = nat k \<and> distinct positions \<and> set positions \<inter> {} = {}
      \<and> set positions \<subseteq> {..<length answer}"
    using pos positions by (rule sample_selected_props)
  have "query_abduction_focused b draw c (Some a) (Some u) m (Some k) i =
      Some (Inr (map (\<lambda>p. answer ! p) positions))"
    using focused_selected[OF assms, of draw i] large positions by simp
  moreover have "int (length positions) = k" using props assms(2) by simp
  moreover have "mset (map (\<lambda>p. answer ! p) positions) \<subseteq># mset answer"
    using props by (intro positions_sub_mset) simp_all
  ultimately show "\<exists>positions.
                query_abduction_focused b draw c (Some a) (Some u) m (Some k) i
                  = Some (Inr (map (\<lambda>p. answer ! p) positions))
              \<and> int (length positions) = k \<and> distinct positions
              \<and> set positions \<subseteq> {..<length answer}
              \<and> mset (map (\<lambda>p. answer ! p) positions) \<subseteq># mset answer"
    using props by blast
next
  assume few: "k < int (length answer) \<and> setsize (nat k) < length answer
      \<and> card (range (\<lambda>t. draw t mod length answer)) < nat k"
  then have "k < int (length answer)" by simp
  then have pos: "0 < length answer" using assms(2) by (cases answer) simp_all
  have "\<not> nat k \<le> card ((\<lambda>s. draw s mod length answer) ` {0..} - {})"
    using few by simp
  then have "sample_selected draw [0..<length answer] {} 0 (nat k) = None"
    using sample_selected_returns[OF pos, of draw "{}" 0 "nat k"] by simp
  then show "query_abduction_focused b draw c (Some a) (Some u) m (Some k) i = None"
    using focused_selected[OF assms, of draw i] few by simp
next
  assume sel: "k < int (length answer) \<and> int (length ps) = k \<and> distinct ps
            \<and> set ps \<subseteq> {..<length answer}"
  then have le: "nat k \<le> length answer" and len: "length ps = nat k" by auto
  have pos: "0 < length answer" using sel assms(2) by (cases answer) simp_all
  show "\<exists>draw'. query_abduction_focused b draw' c (Some a) (Some u) m (Some k) i
                       = Some (Inr (map (\<lambda>p. answer ! p) ps))"
  proof (cases "length answer \<le> setsize (nat k)")
    case True
    have "set ps \<subseteq> set [0..<length answer]" using sel by auto
    then obtain d where d: "sample_pool d 0 [0..<length answer] (length ps) = ps"
      using every_selection_is_a_sample[of "[0..<length answer]" ps 0] sel by auto
    have "query_abduction_focused b d c (Some a) (Some u) m (Some k) i =
        Some (Inr (sample_pool d 0 answer (nat k)))"
      using assms sel True by (intro focused_pool) simp_all
    then have "query_abduction_focused b d c (Some a) (Some u) m (Some k) i =
        Some (Inr (map (\<lambda>p. answer ! p) ps))"
      using sample_pool_positions[OF le, of d 0] d len by simp
    then show ?thesis by blast
  next
    case False
    let ?d = "\<lambda>t. if t < length ps then ps ! t else 0"
    have "\<forall>t<length ps. ?d (0 + t) mod length answer = ps ! t"
      using sel by (auto simp: subset_iff)
    then have "sample_selected ?d [0..<length answer] {} 0 (length ps) = Some ps"
      using pos sel by (intro sample_selected_chosen) simp_all
    then have "query_abduction_focused b ?d c (Some a) (Some u) m (Some k) i =
        Some (Inr (map (\<lambda>p. answer ! p) ps))"
      using focused_selected[OF assms, of ?d i] sel False len by simp
    then show ?thesis by blast
  qed
next
  assume small: "distinct answer \<and> k < int (length answer) \<and> length answer \<le> setsize (nat k)"
  then have "k < int (length answer)" by simp
  then have le: "nat k \<le> length answer" by simp
  have q: "query_abduction_focused b d c (Some a) (Some u) m (Some k) i =
      Some (Inr (sample_pool d 0 answer (nat k)))" for d
    using assms small by (intro focused_pool) simp_all
  show "query_abduction_focused b draw c (Some a) (Some u) m (Some k) i
               = query_abduction_focused b draw'' c (Some a) (Some u) m (Some k) i
        \<longleftrightarrow> (\<forall>t. t < nat k \<longrightarrow>
                    draw t mod (length answer - t) = draw'' t mod (length answer - t))"
  proof
    assume "query_abduction_focused b draw c (Some a) (Some u) m (Some k) i
               = query_abduction_focused b draw'' c (Some a) (Some u) m (Some k) i"
    then have same: "sample_pool draw 0 answer (nat k) = sample_pool draw'' 0 answer (nat k)"
      by (simp add: q)
    show "\<forall>t. t < nat k \<longrightarrow>
        draw t mod (length answer - t) = draw'' t mod (length answer - t)"
    proof (intro allI impI)
      fix t assume "t < nat k"
      then show "draw t mod (length answer - t) = draw'' t mod (length answer - t)"
        using sample_determines_draws[of answer "nat k" draw 0 draw'' t] small le same by simp
    qed
  next
    assume "\<forall>t. t < nat k \<longrightarrow>
        draw t mod (length answer - t) = draw'' t mod (length answer - t)"
    then have "sample_pool draw 0 answer (nat k) = sample_pool draw'' 0 answer (nat k)"
      using le by (intro sample_pool_reduced_cong) simp_all
    then show "query_abduction_focused b draw c (Some a) (Some u) m (Some k) i
               = query_abduction_focused b draw'' c (Some a) (Some u) m (Some k) i"
      by (simp add: q)
  qed
next
  assume large: "distinct answer \<and> k < int (length answer) \<and> setsize (nat k) < length answer
            \<and> inj_on \<pi> {..<length answer} \<and> \<pi> ` {..<length answer} \<subseteq> {..<length answer}
            \<and> (\<forall>t. draw'' t mod length answer = \<pi> (draw t mod length answer))
            \<and> set ps \<subseteq> {..<length answer}
            \<and> query_abduction_focused b draw c (Some a) (Some u) m (Some k) i
                 = Some (Inr (map (\<lambda>p. answer ! p) ps))"
  then have "k < int (length answer)" by simp
  then have pos: "0 < length answer" using assms(2) by (cases answer) simp_all
  have "map_option (\<lambda>ps. Inr (map (\<lambda>p. answer ! p) ps))
      (sample_selected draw [0..<length answer] {} 0 (nat k)) =
      Some (Inr (map (\<lambda>p. answer ! p) ps) :: error + AbductionHypothesesList)"
    using focused_selected[OF assms, of draw i] large by simp
  then obtain qs where
    qs: "sample_selected draw [0..<length answer] {} 0 (nat k) = Some qs"
    and out: "map (\<lambda>p. answer ! p) qs = map (\<lambda>p. answer ! p) ps"
    by auto
  have "set qs \<subseteq> {..<length answer}"
    using sample_selected_props[OF pos qs] by simp
  then have "qs = ps" using large out by (intro positions_of_output) simp_all
  then have "sample_selected draw [0..<length answer] {} 0 (nat k) = Some ps" using qs by simp
  then have "sample_selected draw'' [0..<length answer] (\<pi> ` {}) 0 (nat k) = Some (map \<pi> ps)"
    using pos large by (intro sample_selected_permuted) simp_all
  then show "query_abduction_focused b draw'' c (Some a) (Some u) m (Some k) i
              = Some (Inr (map (\<lambda>p. answer ! p) (map \<pi> ps)))"
    using focused_selected[OF assms, of draw'' i] large by simp
qed

text \<open>
  Three hypotheses and \<open>top_k\<close> 2 or 3: the pool is used, or the answer returned. Twenty-two
  hypotheses and \<open>top_k\<close> 2: the position 5 is drawn, drawn again and refused, and 7 is drawn.
\<close>

theorem focused_abduction_downsampling_witness:
  "query_abduction_focused generous_backend example_draw ''fever and rash'' (Some []) (Some [])
     ''gpt-oss:20b'' (Some 2) 0
     = Some (Inr [hypothesis ''scarlet fever'', hypothesis ''drug eruption''])
   \<and> query_abduction_focused generous_backend example_draw ''fever and rash'' (Some []) (Some [])
     ''gpt-oss:20b'' (Some 3) 0
     = Some (Inr [hypothesis ''drug eruption'', hypothesis ''measles'', hypothesis ''scarlet fever''])
   \<and> query_abduction_focused crowded_backend repeating_draw ''fever and rash'' (Some []) (Some [])
     ''gpt-oss:20b'' (Some 2) 0
     = Some (Inr [hypothesis ''xxxxx'', hypothesis ''xxxxxxx''])"
proof -
  have two: "call_llm (chat_abduction generous_backend)
      (FocusedMessages ''fever and rash'' [] [] (Some 2)) ''gpt-oss:20b''
      AbductionHypothesesList_schema default_max_retries =
      Inr [hypothesis ''drug eruption'', hypothesis ''measles'', hypothesis ''scarlet fever'']"
    by (simp add: call_llm_first[OF default_retries_pos] generous_backend_def)
  have three: "call_llm (chat_abduction generous_backend)
      (FocusedMessages ''fever and rash'' [] [] (Some 3)) ''gpt-oss:20b''
      AbductionHypothesesList_schema default_max_retries =
      Inr [hypothesis ''drug eruption'', hypothesis ''measles'', hypothesis ''scarlet fever'']"
    by (simp add: call_llm_first[OF default_retries_pos] generous_backend_def)
  have many: "call_llm (chat_abduction crowded_backend)
      (FocusedMessages ''fever and rash'' [] [] (Some 2)) ''gpt-oss:20b''
      AbductionHypothesesList_schema default_max_retries =
      Inr (map (\<lambda>d. hypothesis (replicate d CHR ''x'')) [0..<22])"
    by (simp add: call_llm_first[OF default_retries_pos] crowded_backend_def)
  have sample: "query_abduction_focused generous_backend example_draw ''fever and rash'' (Some [])
     (Some []) ''gpt-oss:20b'' (Some 2) 0 =
     Some (Inr [hypothesis ''scarlet fever'', hypothesis ''drug eruption''])"
    using focused_pool[OF two, of example_draw 0]
    by (simp add: setsize_def example_draw_def numeral_2_eq_2 Let_def)
  have redraw: "sample_selected repeating_draw [0..<22] {} 0 2 = Some [5, 7]"
    by (simp add: numeral_2_eq_2 repeating_draw_def reselect.simps)
  have names: "replicate 5 CHR ''x'' = ''xxxxx''" "replicate 7 CHR ''x'' = ''xxxxxxx''"
    by (simp_all add: eval_nat_numeral)
  have crowd: "query_abduction_focused crowded_backend repeating_draw ''fever and rash'' (Some [])
     (Some []) ''gpt-oss:20b'' (Some 2) 0 =
     Some (Inr [hypothesis ''xxxxx'', hypothesis ''xxxxxxx''])"
    using focused_selected[OF many, of repeating_draw 0] redraw
    by (simp add: setsize_def names)
  show ?thesis
    using focused_abduction_downsampling[OF three, where draw = example_draw and i = 0]
      sample crowd
    by simp
qed

section \<open>The example run\<close>

lemma ex1: "ph_abstraction example_phases ''fever and rash'' ''gpt-oss:20b'' 0 =
   Inr (Some (abstraction_postprocessing example_features))"
  by (simp add: example_phases_def imported_phases_def query_abstraction_def
      call_llm_first[OF default_retries_pos] example_backend_def)

lemma ex2: "ph_abduction_unfocused example_phases ''fever and rash''
     (Some (abstraction_postprocessing example_features)) ''gpt-oss:20b'' 10 0 =
   Inr [hypothesis ''drug eruption'', hypothesis ''measles'']"
  by (simp add: example_phases_def imported_phases_def query_abduction_unfocused_def copy_list_def
      call_llm_first[OF default_retries_pos] example_backend_def)

lemma ex3: "ph_abduction_focused example_phases ''fever and rash''
     (Some (abstraction_postprocessing example_features))
     (Some [hypothesis ''drug eruption'', hypothesis ''measles'']) ''gpt-oss:20b'' (Some 10) 0 =
   Inr [hypothesis ''drug eruption'', hypothesis ''measles'']"
  by (simp add: example_phases_def imported_phases_def query_abduction_focused_def copy_list_def
      get_hypotheses_def call_llm_first[OF default_retries_pos] example_backend_def)

lemma ex4: "ph_rank_hypotheses example_phases ''fever and rash''
     (Some (map AbductionDict [hypothesis ''drug eruption'', hypothesis ''measles''])) ''gpt-oss:20b'' 0 =
   Inr [ranked ''drug eruption'' 1, ranked ''measles'' 2]"
  by (simp add: example_phases_def imported_phases_def query_rank_hypotheses_def
      get_hypotheses_def call_llm_first[OF default_retries_pos] example_backend_def Let_def
      hypothesis_def ranked_def plain_rank_def)

lemma ex5: "ph_deduction example_phases
     (sort_key (\<lambda>h. rank (position h)) [ranked ''drug eruption'' 1, ranked ''measles'' 2])
     ''gpt-oss:20b'' 0 =
   Inr [\<lparr>d_diagnosis = ''drug eruption'', predicted_consequences = []\<rparr>,
        \<lparr>d_diagnosis = ''measles'', predicted_consequences = []\<rparr>]"
  by (simp add: example_phases_def imported_phases_def query_deduction_def
      call_llm_first[OF default_retries_pos] example_backend_def Let_def
      ranked_def plain_rank_def)

lemma ex6: "ph_induction example_phases ''fever and rash''
     [\<lparr>d_diagnosis = ''drug eruption'', predicted_consequences = []\<rparr>,
      \<lparr>d_diagnosis = ''measles'', predicted_consequences = []\<rparr>] ''gpt-oss:20b'' 0 =
   Inr ([evaluated ''drug eruption'' ''plausible'', evaluated ''measles'' ''refuted''],
        [evaluated ''drug eruption'' ''plausible''])"
  by (simp add: example_phases_def imported_phases_def query_induction_def
      call_llm_first[OF default_retries_pos] example_backend_def evaluated_def)

lemma ex7: "ph_rank_hypotheses example_phases ''fever and rash''
     (Some (map InductionDict [evaluated ''drug eruption'' ''plausible'', evaluated ''measles'' ''refuted'']))
     ''gpt-oss:20b'' 1 =
   Inr [ranked ''drug eruption'' 1, ranked ''measles'' 2]"
  by (simp add: example_phases_def imported_phases_def query_rank_hypotheses_def
      get_hypotheses_def call_llm_first[OF default_retries_pos] example_backend_def Let_def
      evaluated_def ranked_def plain_rank_def)

section \<open>The Ranking node\<close>

lemma sort_key_twice: "sort_key f (sort_key f xs) = sort_key f xs"
  by (simp add: sort_key_id_if_sorted)

lemma list_ex_InductionDict: "list_ex has_induction_keys (map InductionDict ind) = (ind \<noteq> [])"
  by (cases ind) simp_all

lemma ranks_contiguous_iff:
  fixes f :: "'a \<Rightarrow> int"
  shows "map f (sort_key f xs) = [1..int (length xs)] \<longleftrightarrow>
         mset (map f xs) = mset [1..int (length xs)]"
proof
  assume "map f (sort_key f xs) = [1..int (length xs)]"
  then have "mset (map f (sort_key f xs)) = mset [1..int (length xs)]" by simp
  then show "mset (map f xs) = mset [1..int (length xs)]" by simp
next
  assume a: "mset (map f xs) = mset [1..int (length xs)]"
  have "mset (map f (sort_key f xs)) = mset [1..int (length xs)]" using a by simp
  moreover have "sorted (map f (sort_key f xs))" by simp
  moreover have "sorted [1..int (length xs)]" by simp
  ultimately show "map f (sort_key f xs) = [1..int (length xs)]"
    by (metis properties_for_sort)
qed

text \<open>
  Claim C3, as amended. On the second pass (\<^verbatim>\<open>induction\<close> present, \<^verbatim>\<open>reranked\<close> not true) the
  Ranking node ranks all the hypotheses of \<^verbatim>\<open>induction\<close>, the refuted ones as well as the
  plausible ones: they are sent to the backend as they are, with their evaluation,
  termination recommendation and evaluated findings, the schema lists the diagnoses of all of
  them, and the node writes the sorted answer and sets \<^verbatim>\<open>reranked\<close> to true.
\<close>

theorem second_pass_ranks_all_induction_hypotheses:
  assumes "induction s = Some ind" and "\<not> get_reranked s"
    and "case_text s = Some c" and "model s = Some m"
  shows "n_ranking (imported_phases b draw) s =
    and_then
      (call_llm (chat_ranking b) (RankingMessages (ind \<noteq> []) c (map InductionDict ind)) m
         (ranked_diagnoses (map e_diagnosis ind)) default_max_retries)
      (\<lambda>answer. Inr (empty_dict\<lparr>ranking := Some (sort_key (\<lambda>h. rank (position h)) answer),
                                 reranked := Some True\<rparr>))"
  using assms
  by (cases "call_llm (chat_ranking b) (RankingMessages (ind \<noteq> []) c (map InductionDict ind)) m
         (ranked_diagnoses (map e_diagnosis ind)) default_max_retries")
     (simp_all add: n_ranking_def imported_phases_def query_rank_hypotheses_def getitem_def
        get_hypotheses_def Let_def list_ex_InductionDict sort_key_twice comp_def)

theorem second_pass_ranks_all_induction_hypotheses_witness:
  "n_ranking example_phases second_pass_state =
     Inr (empty_dict\<lparr>ranking := Some [ranked ''drug eruption'' 1, ranked ''measles'' 2],
                     reranked := Some True\<rparr>)"
  using second_pass_ranks_all_induction_hypotheses[of second_pass_state
      "[evaluated ''drug eruption'' ''plausible'', evaluated ''measles'' ''refuted'']"
      "''fever and rash''" "''gpt-oss:20b''" example_backend "\<lambda>i. 0"]
  by (simp add: second_pass_state_def example_inputs_def inputs_def empty_dict_def
      get_reranked_def example_phases_def call_llm_first[OF default_retries_pos]
      example_backend_def evaluated_def ranked_def plain_rank_def)

text \<open>
  The claim as stated fails: with one plausible and one refuted hypothesis in \<^verbatim>\<open>induction\<close>,
  the second ranking holds both, not the plausible subset.
\<close>

theorem second_pass_counterexample:
  "(case n_ranking example_phases second_pass_state of
      Inl e \<Rightarrow> None
    | Inr patch \<Rightarrow> map_option (map r_diagnosis) (ranking patch)) = Some [''drug eruption'', ''measles'']
   \<and> map_option (map e_diagnosis) (induction_plausible second_pass_state) = Some [''drug eruption'']
   \<and> map_option (map evaluation) (induction second_pass_state) = Some [''plausible'', ''refuted'']"
  by (simp add: second_pass_state_def example_inputs_def inputs_def empty_dict_def
      get_reranked_def get_iter_def example_phases_def n_ranking_def imported_phases_def
      query_rank_hypotheses_def getitem_def get_hypotheses_def Let_def
      call_llm_first[OF default_retries_pos]
      example_backend_def evaluated_def ranked_def plain_rank_def)

text \<open>
  Claim C5, as amended. The ranking a Ranking step writes is the answer of the phase, sorted
  ascending by rank: it is sorted, and it holds the same hypotheses with the ranks the phase
  gave them. The node assigns no rank: the ranks are \<open>1, \<dots>, N\<close> exactly when the ranks in
  the answer are a permutation of \<open>1, \<dots>, N\<close>.
\<close>

theorem ranking_sorted_permutation:
  assumes "n_ranking p s = Inr patch"
  shows "\<exists>c abduction_output m i answer.
           ph_rank_hypotheses p c abduction_output m i = Inr answer
         \<and> ranking patch = Some (sort_key (\<lambda>h. rank (position h)) answer)
         \<and> sorted (map (\<lambda>h. rank (position h)) (sort_key (\<lambda>h. rank (position h)) answer))
         \<and> mset (sort_key (\<lambda>h. rank (position h)) answer) = mset answer
         \<and> (map (\<lambda>h. rank (position h)) (sort_key (\<lambda>h. rank (position h)) answer)
               = [1..int (length answer)]
             \<longleftrightarrow> mset (map (\<lambda>h. rank (position h)) answer) = mset [1..int (length answer)])"
proof -
  have "\<exists>c abduction_output m i answer.
           ph_rank_hypotheses p c abduction_output m i = Inr answer
         \<and> ranking patch = Some (sort_key (\<lambda>h. rank (position h)) answer)"
    using assms
    by (auto simp: n_ranking_def and_then_def getitem_def Let_def empty_dict_def
        split: if_splits sum.splits option.splits) blast+
  then show ?thesis
    using ranks_contiguous_iff[where f = "\<lambda>h. rank (position h)"] by (metis mset_sort sorted_sort_key)
qed

theorem ranking_sorted_permutation_witness:
  "ph_rank_hypotheses example_phases ''fever and rash''
     (Some (map InductionDict [evaluated ''drug eruption'' ''plausible'', evaluated ''measles'' ''refuted'']))
     ''gpt-oss:20b'' 1 = Inr [ranked ''drug eruption'' 1, ranked ''measles'' 2]
   \<and> n_ranking example_phases second_pass_state =
     Inr (empty_dict\<lparr>ranking := Some [ranked ''drug eruption'' 1, ranked ''measles'' 2],
                     reranked := Some True\<rparr>)
   \<and> (\<exists>c abduction_output m i answer.
           ph_rank_hypotheses example_phases c abduction_output m i = Inr answer
         \<and> ranking (empty_dict\<lparr>ranking := Some [ranked ''drug eruption'' 1, ranked ''measles'' 2],
                     reranked := Some True\<rparr>) = Some (sort_key (\<lambda>h. rank (position h)) answer)
         \<and> sorted (map (\<lambda>h. rank (position h)) (sort_key (\<lambda>h. rank (position h)) answer))
         \<and> mset (sort_key (\<lambda>h. rank (position h)) answer) = mset answer
         \<and> (map (\<lambda>h. rank (position h)) (sort_key (\<lambda>h. rank (position h)) answer)
               = [1..int (length answer)]
             \<longleftrightarrow> mset (map (\<lambda>h. rank (position h)) answer) = mset [1..int (length answer)]))"
proof -
  have run: "n_ranking example_phases second_pass_state =
     Inr (empty_dict\<lparr>ranking := Some [ranked ''drug eruption'' 1, ranked ''measles'' 2],
                     reranked := Some True\<rparr>)"
    by (simp add: second_pass_state_def example_inputs_def inputs_def empty_dict_def
      get_reranked_def get_iter_def example_phases_def n_ranking_def imported_phases_def
      query_rank_hypotheses_def getitem_def get_hypotheses_def Let_def
      call_llm_first[OF default_retries_pos]
      example_backend_def evaluated_def ranked_def plain_rank_def)
  show ?thesis
    using ranking_sorted_permutation[OF run] run ex7 by simp
qed

text \<open>
  The claim as stated fails: an answer of ten hypotheses of rank 3 validates against the
  schema, and the node writes it with its ranks.
\<close>

theorem ranking_permutation_counterexample:
  "(case n_ranking (imported_phases tied_backend (\<lambda>i. 0)) first_pass_state of
      Inl e \<Rightarrow> None
    | Inr patch \<Rightarrow> map_option (map (\<lambda>h. rank (position h))) (ranking patch))
     = Some [3, 3, 3, 3, 3, 3, 3, 3, 3, 3]
   \<and> ranked_diagnoses [''measles''] (ten (ranked ''measles'' 3))"
  by (simp add: first_pass_state_def example_inputs_def inputs_def empty_dict_def
      get_reranked_def get_iter_def n_ranking_def imported_phases_def
      query_rank_hypotheses_def getitem_def get_hypotheses_def Let_def
      call_llm_first[OF default_retries_pos] tied_backend_def ten_def ranked_diagnoses_def
      example_backend_def hypothesis_def ranked_def plain_rank_def)

section \<open>Deduction and Induction\<close>

lemma deduction_within_ranking:
  assumes "honours_format (chat_deduction b)" and "query_deduction b r m i = Inr d"
  shows "set (map d_diagnosis d) \<subseteq> set (map r_diagnosis r)"
proof -
  have "deduct_diagnoses (map r_diagnosis (sort_key (\<lambda>h. rank (position h)) r)) d"
    using assms by (auto simp: query_deduction_def Let_def intro: call_llm_honoured)
  then have "list_all (\<lambda>h. d_diagnosis h \<in> set (map r_diagnosis (sort_key (\<lambda>h. rank (position h)) r))) d"
    by (simp add: deduct_diagnoses_def list_all_iff)
  then show ?thesis by (auto simp: list_all_iff)
qed

lemma induction_within_deduction:
  assumes "honours_format (chat_induction b)" and "query_induction b c d m i = Inr (ia, ip)"
  shows "set (map e_diagnosis ia) \<subseteq> set (map d_diagnosis d) \<and> set ip \<subseteq> set ia"
proof -
  obtain answer where a: "call_llm (chat_induction b) (InductionMessages c d) m
      (induct_diagnoses (map d_diagnosis d)) default_max_retries = Inr answer"
    and res: "ia = answer" "ip = filter (\<lambda>h. evaluation h = ''plausible'') answer"
    using assms(2) by (auto simp: query_induction_def and_then_def split: sum.splits)
  have "induct_diagnoses (map d_diagnosis d) answer"
    using assms(1) a by (rule call_llm_honoured)
  then have "set (map e_diagnosis answer) \<subseteq> set (map d_diagnosis d)"
    by (auto simp: induct_diagnoses_def list_all_iff)
  then show ?thesis using res by auto
qed

text \<open>
  Claim C7, as amended. If the backend honours the schemas it is called with, every
  diagnosis in the output of Deduction, of Induction and of its plausible subset is a
  diagnosis of the ranking that Deduction read.
\<close>

theorem diagnoses_stay_within_ranking:
  assumes "honours_format (chat_deduction b)" and "honours_format (chat_induction b)"
    and "n_deduction (imported_phases b draw) s = Inr pd"
    and "n_induction (imported_phases b draw) (update s pd) = Inr pi"
  shows "\<exists>r d ia ip.
           ranking s = Some r \<and> deduction pd = Some d
         \<and> induction pi = Some ia \<and> induction_plausible pi = Some ip
         \<and> set (map d_diagnosis d) \<subseteq> set (map r_diagnosis r)
         \<and> set (map e_diagnosis ia) \<subseteq> set (map r_diagnosis r)
         \<and> set (map e_diagnosis ip) \<subseteq> set (map r_diagnosis r)"
proof -
  obtain r m d where r: "ranking s = Some r" and qd: "query_deduction b r m (get_iter s) = Inr d"
    and pd: "pd = empty_dict\<lparr>deduction := Some d\<rparr>"
    using assms(3)
    by (auto simp: n_deduction_def imported_phases_def and_then_def getitem_def
        split: sum.splits option.splits)
  have ded: "deduction (update s pd) = Some d"
    using pd by (simp add: update_def overwrite_def empty_dict_def)
  obtain c m' ia ip where qi: "query_induction b c d m' (get_iter (update s pd)) = Inr (ia, ip)"
    and pi: "induction pi = Some ia" "induction_plausible pi = Some ip"
    using assms(4) ded
    by (auto simp: n_induction_def imported_phases_def and_then_def getitem_def empty_dict_def
        Let_def split: sum.splits option.splits prod.splits)
  have 1: "set (map d_diagnosis d) \<subseteq> set (map r_diagnosis r)"
    using assms(1) qd by (rule deduction_within_ranking)
  have 2: "set (map e_diagnosis ia) \<subseteq> set (map d_diagnosis d) \<and> set ip \<subseteq> set ia"
    using assms(2) qi by (rule induction_within_deduction)
  have 3: "set (map e_diagnosis ip) \<subseteq> set (map e_diagnosis ia)" using 2 by auto
  have 4: "set (map e_diagnosis ia) \<subseteq> set (map r_diagnosis r)" using 1 2 by blast
  have 5: "set (map e_diagnosis ip) \<subseteq> set (map r_diagnosis r)" using 3 4 by blast
  have "deduction pd = Some d" using pd by (simp add: empty_dict_def)
  then show ?thesis using r pi 1 4 5 by blast
qed

lemma obedient_honours:
  "honours_format (chat_deduction obedient_backend)"
  "honours_format (chat_induction obedient_backend)"
  by (auto simp: honours_format_def obedient_backend_def Let_def split: messages.splits if_splits)

lemma obedient_deduction:
  "n_deduction (imported_phases obedient_backend (\<lambda>i. 0)) ranked_state =
     Inr (empty_dict\<lparr>deduction :=
            Some (ten \<lparr>d_diagnosis = ''measles'', predicted_consequences = []\<rparr>)\<rparr>)"
  by (simp add: n_deduction_def imported_phases_def query_deduction_def getitem_def Let_def
      call_llm_first[OF default_retries_pos] obedient_backend_def ranked_state_def
      example_inputs_def inputs_def empty_dict_def get_iter_def ranked_def plain_rank_def ten_def
      deduct_diagnoses_def)

lemma obedient_induction:
  "n_induction (imported_phases obedient_backend (\<lambda>i. 0))
     (update ranked_state (empty_dict\<lparr>deduction :=
            Some (ten \<lparr>d_diagnosis = ''measles'', predicted_consequences = []\<rparr>)\<rparr>)) =
     Inr (empty_dict\<lparr>induction := Some (ten (evaluated ''measles'' ''plausible'')),
                     induction_plausible := Some (ten (evaluated ''measles'' ''plausible'')),
                     iter := Some 1\<rparr>)"
  by (simp add: n_induction_def imported_phases_def query_induction_def getitem_def Let_def
      call_llm_first[OF default_retries_pos] obedient_backend_def ranked_state_def
      example_inputs_def inputs_def empty_dict_def get_iter_def ten_def update_def overwrite_def
      induct_diagnoses_def evaluated_def)

theorem diagnoses_stay_within_ranking_witness:
  "honours_format (chat_deduction obedient_backend)
   \<and> honours_format (chat_induction obedient_backend)
   \<and> (\<exists>r d ia ip.
           ranking ranked_state = Some r
         \<and> deduction (empty_dict\<lparr>deduction :=
              Some (ten \<lparr>d_diagnosis = ''measles'', predicted_consequences = []\<rparr>)\<rparr>) = Some d
         \<and> induction (empty_dict\<lparr>induction := Some (ten (evaluated ''measles'' ''plausible'')),
                     induction_plausible := Some (ten (evaluated ''measles'' ''plausible'')),
                     iter := Some 1\<rparr>) = Some ia
         \<and> induction_plausible (empty_dict\<lparr>induction := Some (ten (evaluated ''measles'' ''plausible'')),
                     induction_plausible := Some (ten (evaluated ''measles'' ''plausible'')),
                     iter := Some 1\<rparr>) = Some ip
         \<and> set (map d_diagnosis d) \<subseteq> set (map r_diagnosis r)
         \<and> set (map e_diagnosis ia) \<subseteq> set (map r_diagnosis r)
         \<and> set (map e_diagnosis ip) \<subseteq> set (map r_diagnosis r))"
  using diagnoses_stay_within_ranking[OF obedient_honours obedient_deduction obedient_induction]
    obedient_honours
  by simp

text \<open>
  The claim as stated fails: the answer is not checked against the schema, so a diagnosis
  the backend invents is written to \<^verbatim>\<open>deduction\<close>.
\<close>

theorem invented_diagnosis_counterexample:
  "(case n_deduction (imported_phases inventive_backend (\<lambda>i. 0)) one_ranked_state of
      Inl e \<Rightarrow> None
    | Inr patch \<Rightarrow> map_option (map d_diagnosis) (deduction patch)) = Some [''lupus'']
   \<and> map_option (map r_diagnosis) (ranking one_ranked_state) = Some [''measles'']"
  by (simp add: n_deduction_def imported_phases_def query_deduction_def getitem_def Let_def
      call_llm_first[OF default_retries_pos] inventive_backend_def one_ranked_state_def
      example_inputs_def inputs_def empty_dict_def get_iter_def ranked_def)

section \<open>Runs\<close>

lemma plan_starts_with_node: "\<exists>rest. plan n s = n # rest"
  by (cases n) (simp_all add: plan_def)

lemma plan_step:
  assumes "on_track n s" and "invoke (graph_definition p) n s = Inr patch"
  shows "(next_nodes (graph_definition p) [n] (update s patch) = [] \<and> plan n s = [n])
       \<or> (\<exists>n'. next_nodes (graph_definition p) [n] (update s patch) = [n']
              \<and> plan n s = n # plan n' (update s patch) \<and> on_track n' (update s patch))"
proof (cases n)
  case Abstraction
  then show ?thesis using assms
    by (auto simp: next_after_abstraction plan_def on_track_def invoke_graph n_abstraction_def
        and_then_def getitem_def empty_dict_def update_def overwrite_def get_reranked_def
        split: sum.splits option.splits)
next
  case AbductionUnfocused
  then show ?thesis using assms
    by (auto simp: next_plain plan_def on_track_def invoke_graph n_abduction_unfocused_def
        and_then_def getitem_def empty_dict_def update_def overwrite_def get_reranked_def
        split: sum.splits option.splits)
next
  case AbductionFocused
  then show ?thesis using assms
    by (auto simp: next_plain plan_def on_track_def invoke_graph n_abduction_focused_def
        and_then_def getitem_def empty_dict_def update_def overwrite_def get_reranked_def
        split: sum.splits option.splits)
next
  case Ranking
  then show ?thesis using assms
    by (auto simp: next_after_ranking plan_def on_track_def invoke_graph n_ranking_def Let_def
        and_then_def getitem_def empty_dict_def update_def overwrite_def get_reranked_def
        split: sum.splits option.splits if_splits)
next
  case Deduction
  then show ?thesis using assms
    by (auto simp: next_plain plan_def on_track_def invoke_graph n_deduction_def
        and_then_def getitem_def empty_dict_def update_def overwrite_def get_reranked_def
        split: sum.splits option.splits)
next
  case Induction
  then show ?thesis using assms
    by (auto simp: next_plain plan_def on_track_def invoke_graph n_induction_def Let_def
        and_then_def getitem_def empty_dict_def update_def overwrite_def get_reranked_def
        split: sum.splits option.splits prod.splits)
qed

lemma run_follows_plan:
  "on_track n s \<Longrightarrow> length (plan n s) < budget \<Longrightarrow>
   completes_or_aborts (map fst tr @ plan n s) (run_loop (graph_definition p) budget [n] s tr)"
proof (induction budget arbitrary: n s tr)
  case 0
  then show ?case using plan_starts_with_node[of n s] by auto
next
  case (Suc budget)
  obtain rest where rest: "plan n s = n # rest" using plan_starts_with_node by blast
  show ?case
  proof (cases "invoke (graph_definition p) n s")
    case (Inl e)
    then show ?thesis
      by (simp add: run_loop_single completes_or_aborts_def executed_def rest)
  next
    case (Inr patch)
    let ?s' = "update s patch"
    let ?tr' = "tr @ [(n, patch, ?s')]"
    have step: "run_loop (graph_definition p) (Suc budget) [n] s tr =
        run_loop (graph_definition p) budget (next_nodes (graph_definition p) [n] ?s') ?s' ?tr'"
      using Inr by (simp add: Let_def)
    from plan_step[OF Suc.prems(1) Inr]
    consider (stop) "next_nodes (graph_definition p) [n] ?s' = []" "plan n s = [n]"
      | (go) n' where "next_nodes (graph_definition p) [n] ?s' = [n']"
          "plan n s = n # plan n' ?s'" "on_track n' ?s'"
      by blast
    then show ?thesis
    proof cases
      case stop
      have "0 < budget" using Suc.prems(2) stop(2) by simp
      then obtain budget' where "budget = Suc budget'" by (cases budget) simp_all
      then show ?thesis
        unfolding step using stop by (simp add: completes_or_aborts_def executed_def)
    next
      case go
      have "length (plan n' ?s') < budget" using Suc.prems(2) go(2) by simp
      then have "completes_or_aborts (map fst ?tr' @ plan n' ?s')
          (run_loop (graph_definition p) budget [n'] ?s' ?tr')"
        using go(3) by (intro Suc.IH)
      then show ?thesis unfolding step go(1) by (simp add: go(2))
    qed
  qed
qed

lemma run_completes_or_aborts:
  "completes_or_aborts
     [Abstraction, AbductionUnfocused, AbductionFocused, Ranking, Deduction, Induction, Ranking]
     (run p (inputs c m sfx k))"
proof -
  have "on_track Abstraction (inputs c m sfx k)"
    by (simp add: on_track_def inputs_def empty_dict_def get_reranked_def)
  moreover have "length (plan Abstraction (inputs c m sfx k)) < recursion_limit"
    by (simp add: plan_def recursion_limit_def)
  ultimately have "completes_or_aborts
      (map fst ([] :: (node \<times> EpistState \<times> EpistState) list) @ plan Abstraction (inputs c m sfx k))
      (run_loop (graph_definition p) recursion_limit [Abstraction] (inputs c m sfx k) [])"
    by (rule run_follows_plan)
  then show ?thesis by (simp add: run_def entry_point_graph plan_def)
qed

lemma seven_phase_calls:
  assumes "ph_abstraction p c m 0 = Inr (Some a)"
    and "ph_abduction_unfocused p c (Some a) m k 0 = Inr u"
    and "ph_abduction_focused p c (Some a) (Some u) m (Some k) 0 = Inr f"
    and "ph_rank_hypotheses p c (Some (map AbductionDict f)) m 0 = Inr r1"
    and "ph_deduction p (sort_key (\<lambda>h. rank (position h)) r1) m 0 = Inr d"
    and "ph_induction p c d m 0 = Inr (ia, ip)"
    and "ph_rank_hypotheses p c (Some (map InductionDict ia)) m 1 = Inr r2"
  shows "executed (run p (inputs c m sfx k)) =
           [Abstraction, AbductionUnfocused, AbductionFocused, Ranking, Deduction, Induction, Ranking]
       \<and> outcome (run p (inputs c m sfx k)) = Terminal
       \<and> map_option reranked (state_after (run p (inputs c m sfx k)) 4) = Some (Some False)
       \<and> map_option reranked (state_after (run p (inputs c m sfx k)) 7) = Some (Some True)"
  using assms
  by (simp add: run_def recursion_limit_def run_loop_numeral run_loop_end entry_point_graph
      invoke_graph next_after_abstraction next_plain
      next_after_ranking n_abstraction_def n_abduction_unfocused_def n_abduction_focused_def
      n_ranking_def n_deduction_def n_induction_def inputs_def empty_dict_def update_def
      overwrite_def getitem_def get_iter_def get_reranked_def executed_def state_after_def
      Let_def)

text \<open>
  Claim C1. Every run from the inputs follows the seven steps Abstraction,
  AbductionUnfocused, AbductionFocused, Ranking, Deduction, Induction, Ranking: it
  reaches the terminal marker after exactly these, or a node raises at one of them and the
  run is aborted there; the limit of 60 steps is never reached, and the cycle through
  Deduction and Induction is taken at most once. When the Abstraction phase yields a
  present result and no phase call of the run raises, the run executes exactly the seven
  steps and reaches the terminal marker, with \<^verbatim>\<open>reranked\<close> false after step 4 and true
  after step 7.
\<close>

theorem seven_steps:
  "completes_or_aborts
     [Abstraction, AbductionUnfocused, AbductionFocused, Ranking, Deduction, Induction, Ranking]
     (run p (inputs c m sfx k))
   \<and> (ph_abstraction p c m 0 = Inr (Some a) \<longrightarrow>
      ph_abduction_unfocused p c (Some a) m k 0 = Inr u \<longrightarrow>
      ph_abduction_focused p c (Some a) (Some u) m (Some k) 0 = Inr f \<longrightarrow>
      ph_rank_hypotheses p c (Some (map AbductionDict f)) m 0 = Inr r1 \<longrightarrow>
      ph_deduction p (sort_key (\<lambda>h. rank (position h)) r1) m 0 = Inr d \<longrightarrow>
      ph_induction p c d m 0 = Inr (ia, ip) \<longrightarrow>
      ph_rank_hypotheses p c (Some (map InductionDict ia)) m 1 = Inr r2 \<longrightarrow>
        executed (run p (inputs c m sfx k)) =
          [Abstraction, AbductionUnfocused, AbductionFocused, Ranking, Deduction, Induction, Ranking]
      \<and> outcome (run p (inputs c m sfx k)) = Terminal
      \<and> map_option reranked (state_after (run p (inputs c m sfx k)) 4) = Some (Some False)
      \<and> map_option reranked (state_after (run p (inputs c m sfx k)) 7) = Some (Some True))"
  using run_completes_or_aborts[of p c m sfx k]
    seven_phase_calls[of p c m a k u f r1 d ia ip r2 sfx]
  by blast

theorem seven_steps_witness:
  "executed (run example_phases example_inputs) =
     [Abstraction, AbductionUnfocused, AbductionFocused, Ranking, Deduction, Induction, Ranking]
   \<and> outcome (run example_phases example_inputs) = Terminal
   \<and> map_option reranked (state_after (run example_phases example_inputs) 4) = Some (Some False)
   \<and> map_option reranked (state_after (run example_phases example_inputs) 7) = Some (Some True)"
  unfolding example_inputs_def
  by (rule seven_steps[THEN conjunct2, rule_format, OF ex1 ex2 ex3 ex4 ex5 ex6 ex7])








lemma patch_reranked:
  "n \<noteq> Ranking \<Longrightarrow> invoke (graph_definition p) n s = Inr patch \<Longrightarrow> reranked patch = None"
  by (cases n)
     (auto simp: invoke_graph n_abstraction_def n_abduction_unfocused_def n_abduction_focused_def
        n_deduction_def n_induction_def and_then_def getitem_def empty_dict_def Let_def
        split: sum.splits option.splits prod.splits)

lemma get_reranked_update:
  "get_reranked (update s patch) = (case reranked patch of None \<Rightarrow> get_reranked s | Some r \<Rightarrow> r)"
  by (simp add: get_reranked_def update_def overwrite_def split: option.splits)

lemma sorted_all_False:
  "list_all (\<lambda>b. \<not> b) bs \<Longrightarrow> sorted (bs @ [x :: bool])"
  by (induction bs) (auto simp: sorted_append)

lemma reranked_invariant:
  "g = graph_definition p \<Longrightarrow>
   sorted (map (\<lambda>(n, patch, s'). get_reranked s') tr) \<Longrightarrow>
   length active \<le> 1 \<Longrightarrow>
   (active \<noteq> [] \<Longrightarrow> list_all (\<lambda>(n, patch, s'). \<not> get_reranked s') tr \<and> \<not> get_reranked s) \<Longrightarrow>
   sorted (map (\<lambda>(n, patch, s'). get_reranked s') (trace (run_loop g budget active s tr)))"
proof (induction g budget active s tr rule: run_loop.induct)
  case (1 g ns s tr)
  then show ?case by simp
next
  case (2 g budget s tr)
  then show ?case by simp
next
  case (3 g budget n ns s tr)
  note g = "3.prems"(1)
  from "3.prems"(3) have ns: "ns = []" by simp
  have low: "list_all (\<lambda>(n, patch, s'). \<not> get_reranked s') tr" and cur: "\<not> get_reranked s"
    using "3.prems"(4) by simp_all
  show ?case
  proof (cases "invoke g n s")
    case (Inl e)
    then show ?thesis using "3.prems"(2) ns by simp
  next
    case (Inr patch)
    let ?s' = "update s patch"
    let ?tr' = "tr @ [(n, patch, ?s')]"
    have sup: "superstep g (n # ns) s = Inr [(n, patch)]"
      using Inr ns by simp
    have step: "run_loop g (Suc budget) (n # ns) s tr =
        run_loop g budget (next_nodes g [n] ?s') ?s' ?tr'"
      using Inr ns by (simp add: Let_def)
    have sorted': "sorted (map (\<lambda>(n, patch, s'). get_reranked s') ?tr')"
      using sorted_all_False[of "map (\<lambda>(n, patch, s'). get_reranked s') tr" "get_reranked ?s'"] low
      by (simp add: list_all_iff split_beta)
    have low': "list_all (\<lambda>(n, patch, s'). \<not> get_reranked s') ?tr' \<and> \<not> get_reranked ?s'"
      if ne: "next_nodes g [n] ?s' \<noteq> []"
    proof -
      have "\<not> get_reranked ?s'"
      proof (cases "n = Ranking")
        case True
        then show ?thesis using ne g by (simp add: next_after_ranking split: if_splits)
      next
        case False
        then have "reranked patch = None" using Inr patch_reranked g by blast
        then show ?thesis using cur by (simp add: get_reranked_update)
      qed
      then show ?thesis using low by simp
    qed
    have "sorted (map (\<lambda>(n, patch, s'). get_reranked s')
       (trace (run_loop g budget (next_nodes g [n] ?s') ?s' ?tr')))"
      using "3.IH"[OF sup refl g] sorted' next_single[of p n ?s'] low' ns g
      by (simp del: le_bool_def)
    then show ?thesis unfolding ns using step[unfolded ns] by (simp only:)
  qed
qed

lemma reranked_never_reset:
  "sorted (map (\<lambda>(n, patch, s'). get_reranked s') (trace (run p (inputs c m sfx k))))"
  unfolding run_def Let_def
  by (rule reranked_invariant[OF refl]) (simp_all add: inputs_def empty_dict_def get_reranked_def)

text \<open>
  Claim C4, as amended. The Ranking node has no guard for a state in which \<^verbatim>\<open>reranked\<close> is
  already true: entered there it takes the branch of the first pass, ranks
  \<^verbatim>\<open>abduction_focused\<close>, writes the new ranking and sets \<^verbatim>\<open>reranked\<close> to false. In a run from
  the inputs this does not happen: along the steps of a run \<^verbatim>\<open>reranked\<close> never goes from true
  back to false.
\<close>

theorem ranking_has_no_rerank_guard:
  "n_ranking p (s\<lparr>reranked := Some True\<rparr>) =
     and_then (getitem (case_text s) ''case_text'') (\<lambda>c.
     and_then (getitem (model s) ''model'') (\<lambda>m.
     and_then (ph_rank_hypotheses p c (map_option (map AbductionDict) (abduction_focused s)) m
                 (get_iter s)) (\<lambda>out.
       Inr (empty_dict\<lparr>ranking := Some (sort_key (\<lambda>h. rank (position h)) out),
                       reranked := Some False\<rparr>))))
   \<and> sorted (map (\<lambda>(n, patch, s'). get_reranked s') (trace (run p (inputs c0 m0 sfx k))))"
proof
  have "map_option (map AbductionDict) (abduction_focused s) =
      (case abduction_focused s of None \<Rightarrow> None | Some hs \<Rightarrow> Some (map AbductionDict hs))"
    by (simp split: option.splits)
  then show "n_ranking p (s\<lparr>reranked := Some True\<rparr>) =
     and_then (getitem (case_text s) ''case_text'') (\<lambda>c.
     and_then (getitem (model s) ''model'') (\<lambda>m.
     and_then (ph_rank_hypotheses p c (map_option (map AbductionDict) (abduction_focused s)) m
                 (get_iter s)) (\<lambda>out.
       Inr (empty_dict\<lparr>ranking := Some (sort_key (\<lambda>h. rank (position h)) out),
                       reranked := Some False\<rparr>))))"
    by (simp add: n_ranking_def get_reranked_def get_iter_def Let_def)
  show "sorted (map (\<lambda>(n, patch, s'). get_reranked s') (trace (run p (inputs c0 m0 sfx k))))"
    by (rule reranked_never_reset)
qed

text \<open>
  The claim as stated fails: entered with \<^verbatim>\<open>reranked\<close> true, the node returns a patch with a
  ranking and with \<^verbatim>\<open>reranked\<close> false.
\<close>

theorem rerank_guard_counterexample:
  "n_ranking example_phases reranked_state =
     Inr (empty_dict\<lparr>ranking := Some [ranked ''drug eruption'' 1, ranked ''measles'' 2],
                     reranked := Some False\<rparr>)
   \<and> reranked reranked_state = Some True"
  by (simp add: reranked_state_def example_inputs_def inputs_def empty_dict_def
      get_reranked_def get_iter_def example_phases_def n_ranking_def imported_phases_def
      query_rank_hypotheses_def getitem_def get_hypotheses_def Let_def
      call_llm_first[OF default_retries_pos]
      example_backend_def hypothesis_def ranked_def plain_rank_def)






end
